theory Spec2Isabelle
  imports Main "HOL-Library.Product_Lexorder" "HOL-Library.Sublist"
begin

text \<open>
  The crawl engine of Venom: URL normalisation and admission (\<^verbatim>\<open>Crawler\<close>), the robots
  gate, the job table of \<^verbatim>\<open>VenomDatabase\<close>, the scheduler of \<^verbatim>\<open>JobQueue\<close> and the handler
  of \<^verbatim>\<open>Venom.crawl\<close>.  Thrown errors are values (\<open>None\<close>, or \<open>Inl\<close> with the message);
  the objects' fields are passed as state and returned updated; the network, the
  browser, the clock and the identifier source are parameters.
\<close>

section \<open>Strings\<close>

text \<open>
  JavaScript strings are modelled as \<^typ>\<open>string\<close> (lists of 8-bit characters); the
  URLs of the examples are ASCII.  \<open>includes_str s d\<close> is \<^verbatim>\<open>s.includes(d)\<close>: \<open>d\<close> occurs in
  \<open>s\<close> as a contiguous substring.  \<open>endsWith\<close> and \<open>slice_0_m1\<close> are
  \<^verbatim>\<open>s.endsWith('/')\<close> and \<^verbatim>\<open>s.slice(0, -1)\<close>.
\<close>

fun includes_str :: "string \<Rightarrow> string \<Rightarrow> bool" where
  "includes_str [] d = (d = [])"
| "includes_str (c # cs) d = (take (length d) (c # cs) = d \<or> includes_str cs d)"

definition endsWith :: "string \<Rightarrow> char \<Rightarrow> bool" where
  "endsWith s c = (s \<noteq> [] \<and> last s = c)"

definition slice_0_m1 :: "string \<Rightarrow> string" where
  "slice_0_m1 s = butlast s"

text \<open>\<open>split_first c s\<close> cuts \<open>s\<close> at the first occurrence of \<open>c\<close>, if there is one.\<close>

definition split_first :: "char \<Rightarrow> string \<Rightarrow> string \<times> string option" where
  "split_first c s =
     (case dropWhile (\<lambda>x. x \<noteq> c) s of
        [] \<Rightarrow> (s, None)
      | _ # r \<Rightarrow> (takeWhile (\<lambda>x. x \<noteq> c) s, Some r))"

text \<open>\<open>split_all c s\<close> is \<^verbatim>\<open>s.split(c)\<close>: the pieces between the occurrences of \<open>c\<close>.\<close>

fun split_all :: "char \<Rightarrow> string \<Rightarrow> string list" where
  "split_all c [] = [[]]"
| "split_all c (x # xs) =
     (case split_all c xs of
        [] \<Rightarrow> (if x = c then [[], []] else [[x]])
      | p # ps \<Rightarrow> (if x = c then [] # p # ps else (x # p) # ps))"

definition lower_alpha :: string where "lower_alpha = ''abcdefghijklmnopqrstuvwxyz''"
definition upper_alpha :: string where "upper_alpha = ''ABCDEFGHIJKLMNOPQRSTUVWXYZ''"
definition digits :: string where "digits = ''0123456789''"

definition toLowerChar :: "char \<Rightarrow> char" where
  "toLowerChar c = (case map_of (zip upper_alpha lower_alpha) c of None \<Rightarrow> c | Some l \<Rightarrow> l)"

definition toLowerCase :: "string \<Rightarrow> string" where
  "toLowerCase s = map toLowerChar s"

definition isAlnum :: "char \<Rightarrow> bool" where
  "isAlnum c = (c \<in> set lower_alpha \<or> c \<in> set upper_alpha \<or> c \<in> set digits)"

section \<open>The platform's URL objects\<close>

text \<open>
  \<^verbatim>\<open>new URL(url)\<close>, \<^verbatim>\<open>urlObj.hash = ''\<close>, \<^verbatim>\<open>urlObj.searchParams.delete(name)\<close> and
  \<^verbatim>\<open>urlObj.toString()\<close> belong to the JavaScript runtime, not to the repository.  They
  are modelled after the WHATWG URL Standard on the URLs
  \<^verbatim>\<open>scheme://host[/path][?query][#fragment]\<close> with scheme http, https, ftp, ws or wss
  that the parser leaves as they are up to the letter case of scheme and host and an
  absent path: no credentials or port, a host of letters, digits, \<^verbatim>\<open>-\<close> and \<^verbatim>\<open>.\<close> that
  is not a number, no dot segments in the path, and only characters that the parser
  does not escape.  Every other string is rejected here (\<open>None\<close> stands for the
  \<^verbatim>\<open>TypeError\<close> of the constructor), although the real parser accepts some of them after
  rewriting.  The general theorems below do not depend on which strings are accepted.

  A URL object carries its components and the list of its \<^verbatim>\<open>URLSearchParams\<close> object.
\<close>

record URL =
  scheme :: string
  host :: string
  path :: string
  query :: "string option"
  fragment :: "string option"
  searchParams :: "(string \<times> string) list"

definition protocol :: "URL \<Rightarrow> string" where
  "protocol u = scheme u @ '':''"

definition hostname :: "URL \<Rightarrow> string" where
  "hostname u = host u"

definition pathname :: "URL \<Rightarrow> string" where
  "pathname u = path u"

subsection \<open>application/x-www-form-urlencoded\<close>

definition hexDigits :: string where "hexDigits = ''0123456789ABCDEF''"

definition isHex :: "char \<Rightarrow> bool" where
  "isHex c = (c \<in> set digits \<or> c \<in> set ''abcdefABCDEF'')"

definition hexVal :: "char \<Rightarrow> nat" where
  "hexVal c =
     (if c \<in> set digits then of_char c - 48
      else if c \<in> set ''ABCDEF'' then of_char c - 55
      else of_char c - 87)"

text \<open>Percent-decoding: \<^verbatim>\<open>%XY\<close> with two hex digits becomes the byte, any other \<^verbatim>\<open>%\<close> stays.\<close>

fun percentDecode :: "string \<Rightarrow> string" where
  "percentDecode (p # a # b # cs) =
     (if p = CHR ''%'' \<and> isHex a \<and> isHex b
      then char_of (16 * hexVal a + hexVal b) # percentDecode cs
      else p # percentDecode (a # b # cs))"
| "percentDecode cs = cs"

text \<open>
  The serializer keeps letters, digits, \<^verbatim>\<open>*\<close>, \<^verbatim>\<open>-\<close>, \<^verbatim>\<open>.\<close> and \<^verbatim>\<open>_\<close>, writes a space as
  \<^verbatim>\<open>+\<close> and every other byte as \<^verbatim>\<open>%XY\<close>.  Decoded bytes are taken to be valid UTF-8,
  on which the standard's decode and encode steps cancel.
\<close>

definition urlencodeChar :: "char \<Rightarrow> string" where
  "urlencodeChar c =
     (if c = CHR '' '' then ''+''
      else if isAlnum c \<or> c \<in> set ''*-._'' then [c]
      else [CHR ''%'', hexDigits ! (of_char c div 16), hexDigits ! (of_char c mod 16)])"

definition urlencodeString :: "string \<Rightarrow> string" where
  "urlencodeString s = concat (map urlencodeChar s)"

definition plusToSpace :: "string \<Rightarrow> string" where
  "plusToSpace s = map (\<lambda>c. if c = CHR ''+'' then CHR '' '' else c) s"

definition parsePair :: "string \<Rightarrow> string \<times> string" where
  "parsePair piece =
     (case split_first (CHR ''='') piece of
        (n, None) \<Rightarrow> (percentDecode (plusToSpace n), [])
      | (n, Some v) \<Rightarrow> (percentDecode (plusToSpace n), percentDecode (plusToSpace v)))"

definition urlencodedParse :: "string \<Rightarrow> (string \<times> string) list" where
  "urlencodedParse q = map parsePair (filter (\<lambda>p. p \<noteq> []) (split_all (CHR ''&'') q))"

fun joinWith :: "char \<Rightarrow> string list \<Rightarrow> string" where
  "joinWith c [] = []"
| "joinWith c [s] = s"
| "joinWith c (s # t # ss) = s @ c # joinWith c (t # ss)"

definition urlencodedSerialize :: "(string \<times> string) list \<Rightarrow> string" where
  "urlencodedSerialize ps =
     joinWith (CHR ''&'') (map (\<lambda>(n, v). urlencodeString n @ CHR ''='' # urlencodeString v) ps)"

subsection \<open>The constructor\<close>

definition specialSchemes :: "string list" where
  "specialSchemes = [''http'', ''https'', ''ftp'', ''ws'', ''wss'']"

definition safeChar :: "char \<Rightarrow> bool" where
  "safeChar c = (isAlnum c \<or> c \<in> set ''-._~!$&()*+,;=:@/%'')"

definition validHost :: "string \<Rightarrow> bool" where
  "validHost h =
     (h \<noteq> [] \<and> list_all (\<lambda>c. isAlnum c \<or> c = CHR ''-'' \<or> c = CHR ''.'') h \<and>
      (case filter (\<lambda>l. l \<noteq> []) (split_all (CHR ''.'') h) of
         [] \<Rightarrow> False
       | ls \<Rightarrow> hd (last ls) \<notin> set digits))"

definition dotSegment :: "string \<Rightarrow> bool" where
  "dotSegment s =
     (toLowerCase s \<in> set [''.'', ''..'', ''%2e'', ''.%2e'', ''%2e.'', ''%2e%2e''])"

definition validPath :: "string \<Rightarrow> bool" where
  "validPath p =
     (list_all safeChar p \<and> list_all (\<lambda>s. \<not> dotSegment s) (split_all (CHR ''/'') p))"

definition validQuery :: "string \<Rightarrow> bool" where
  "validQuery q = list_all (\<lambda>c. safeChar c \<or> c = CHR ''?'') q"

definition optAll :: "('a \<Rightarrow> bool) \<Rightarrow> 'a option \<Rightarrow> bool" where
  "optAll P x = (case x of None \<Rightarrow> True | Some v \<Rightarrow> P v)"

definition URL_new :: "string \<Rightarrow> URL option" where
  "URL_new input =
     (case split_first (CHR ''#'') input of (beforeFragment, frag) \<Rightarrow>
      case split_first (CHR ''?'') beforeFragment of (beforeQuery, qry) \<Rightarrow>
      case split_first (CHR '':'') beforeQuery of
        (sch, None) \<Rightarrow> None
      | (sch, Some rest) \<Rightarrow>
          if \<not> (toLowerCase sch \<in> set specialSchemes \<and> take 2 rest = ''//'') then None
          else
            let h = takeWhile (\<lambda>c. c \<noteq> CHR ''/'') (drop 2 rest);
                p = dropWhile (\<lambda>c. c \<noteq> CHR ''/'') (drop 2 rest)
            in if validHost h \<and> validPath p \<and> optAll validQuery qry \<and> optAll validQuery frag
               then Some \<lparr> scheme = toLowerCase sch, host = toLowerCase h,
                           path = (if p = [] then ''/'' else p),
                           query = qry, fragment = frag,
                           searchParams = urlencodedParse (case qry of None \<Rightarrow> [] | Some q \<Rightarrow> q) \<rparr>
               else None)"

subsection \<open>Setters and the serializer\<close>

text \<open>\<^verbatim>\<open>urlObj.hash = ''\<close>: the fragment becomes null.\<close>

definition hash_clear :: "URL \<Rightarrow> URL" where
  "hash_clear u = u\<lparr>fragment := None\<rparr>"

text \<open>
  \<^verbatim>\<open>urlObj.searchParams.delete(name)\<close> removes every pair of that name and then updates
  the URL: the query becomes the serialized list, or null when that is empty.  The
  update runs whether or not a pair was removed.
\<close>

definition searchParams_delete :: "string \<Rightarrow> URL \<Rightarrow> URL" where
  "searchParams_delete name u =
     (let l = filter (\<lambda>(n, v). n \<noteq> name) (searchParams u);
          s = urlencodedSerialize l
      in u\<lparr>searchParams := l, query := (if s = [] then None else Some s)\<rparr>)"

definition toString :: "URL \<Rightarrow> string" where
  "toString u =
     scheme u @ ''://'' @ host u @ path u @
     (case query u of None \<Rightarrow> [] | Some q \<Rightarrow> CHR ''?'' # q) @
     (case fragment u of None \<Rightarrow> [] | Some f \<Rightarrow> CHR ''#'' # f)"

section \<open>Crawler: URL normalisation and admission (src/crawler/crawler.ts)\<close>

text \<open>
  \<open>normalizeUrl\<close> is \<^verbatim>\<open>Crawler.normalizeUrl\<close>.  The \<^verbatim>\<open>try\<close> block is \<open>normalizeUrl_try\<close>: it
  fails only where \<^verbatim>\<open>new URL(url)\<close> throws; the \<^verbatim>\<open>catch\<close> returns the input.
\<close>

definition normalizeUrl_try :: "string \<Rightarrow> string option" where
  "normalizeUrl_try url =
     (case URL_new url of
        None \<Rightarrow> None
      | Some urlObj0 \<Rightarrow>
          let urlObj =
                searchParams_delete ''gclid''
               (searchParams_delete ''fbclid''
               (searchParams_delete ''ref''
               (searchParams_delete ''utm_term''
               (searchParams_delete ''utm_content''
               (searchParams_delete ''utm_campaign''
               (searchParams_delete ''utm_medium''
               (searchParams_delete ''utm_source''
               (hash_clear urlObj0))))))));
              normalized = toString urlObj
          in Some (if endsWith normalized (CHR ''/'') \<and> pathname urlObj \<noteq> ''/''
                   then slice_0_m1 normalized else normalized))"

definition normalizeUrl :: "string \<Rightarrow> string" where
  "normalizeUrl url = (case normalizeUrl_try url of None \<Rightarrow> url | Some n \<Rightarrow> n)"

text \<open>\<^verbatim>\<open>Crawler.getDomain\<close>: the hostname, or the empty string when the constructor throws.\<close>

definition getDomain :: "string \<Rightarrow> string" where
  "getDomain url = (case URL_new url of None \<Rightarrow> [] | Some u \<Rightarrow> hostname u)"

text \<open>
  The fields of \<^verbatim>\<open>CrawlerConfig\<close> that the modelled code reads.  \<open>maxUrlsPerDomain\<close> is
  not validated by the configuration loader, so it is an integer.
\<close>

record CrawlerConfig =
  maxDepth :: nat
  respectRobotsTxt :: bool
  userAgent :: string
  maxUrlsPerDomain :: int
  allowedDomains :: "string list"
  blockedDomains :: "string list"

text \<open>\<^verbatim>\<open>Crawler.shouldCrawl\<close>, with the crawler's \<^verbatim>\<open>visitedUrls\<close> passed in.\<close>

definition shouldCrawl :: "CrawlerConfig \<Rightarrow> string set \<Rightarrow> string \<Rightarrow> bool" where
  "shouldCrawl config visitedUrls url =
     (let normalizedUrl = normalizeUrl url in
      if normalizedUrl \<in> visitedUrls then False
      else
        case URL_new url of
          None \<Rightarrow> False
        | Some urlObj \<Rightarrow>
            if protocol urlObj \<notin> set [''http:'', ''https:''] then False
            else
              let domain = getDomain url in
              if list_ex (\<lambda>d. includes_str domain d) (blockedDomains config) then False
              else if length (allowedDomains config) > 0 \<and>
                      \<not> list_ex (\<lambda>d. includes_str domain d) (allowedDomains config) then False
              else True)"

section \<open>Data model (src/types.ts)\<close>

datatype JobPriority = Low | Normal | High

datatype CaptureStatus = Pending | Crawling | Processing | Captioning | Completed | Failed

text \<open>
  \<^verbatim>\<open>CrawlJob\<close>.  Timestamps are milliseconds; \<open>id\<close>, \<open>url\<close> and \<open>depth\<close> carry a suffix
  because \<^verbatim>\<open>PageCapture\<close> has fields of the same names.
\<close>

record CrawlJob =
  id_job :: string
  url_job :: string
  depth_job :: nat
  parentUrl :: "string option"
  priority :: JobPriority
  status :: CaptureStatus
  retryCount :: nat
  errorMessage :: "string option"
  createdAt :: nat
  updatedAt :: nat

record ExtractedLink =
  href :: string
  text_link :: string
  isInternal :: bool

text \<open>
  \<^verbatim>\<open>PageCapture\<close>, with the fields the crawl loop reads; \<open>links\<close> is \<^verbatim>\<open>capture.html.links\<close>.
  Screenshot, page text, styles, timing and caption are left out.
\<close>

record PageCapture =
  id_cap :: string
  url_cap :: string
  normalizedUrl :: string
  domain :: string
  depth_cap :: nat
  links :: "ExtractedLink list"

record CrawlStats =
  urlsDiscovered :: nat
  urlsCrawled :: nat
  urlsFailed :: nat
  urlsSkipped :: nat
  screenshotsTaken :: nat
  captionsGenerated :: nat

section \<open>VenomDatabase: the job and capture tables (storage/database.ts)\<close>

text \<open>
  The \<^verbatim>\<open>jobs\<close> table is the list of its rows in insertion order, with primary key
  \<open>id_job\<close>; the \<^verbatim>\<open>captures\<close> table is the list of its rows, with primary key \<open>id_cap\<close>
  and a unique \<open>normalizedUrl\<close>.
\<close>

record VenomDatabase =
  jobs :: "CrawlJob list"
  captures :: "PageCapture list"

text \<open>\<^verbatim>\<open>x || null\<close> on an optional string: the empty string is stored as null.\<close>

definition orNull :: "string option \<Rightarrow> string option" where
  "orNull x = (case x of None \<Rightarrow> None | Some s \<Rightarrow> (if s = [] then None else Some s))"

text \<open>\<^verbatim>\<open>addJob\<close>: \<^verbatim>\<open>INSERT OR IGNORE\<close>, so a row whose id is taken is dropped silently.\<close>

definition addJob :: "VenomDatabase \<Rightarrow> CrawlJob \<Rightarrow> VenomDatabase" where
  "addJob db job =
     (if list_ex (\<lambda>j. id_job j = id_job job) (jobs db) then db
      else db\<lparr>jobs := jobs db @
             [job\<lparr>parentUrl := orNull (parentUrl job), errorMessage := orNull (errorMessage job)\<rparr>]\<rparr>)"

text \<open>\<^verbatim>\<open>CASE priority WHEN 'high' THEN 1 WHEN 'normal' THEN 2 ELSE 3 END\<close>\<close>

fun priorityRank :: "JobPriority \<Rightarrow> nat" where
  "priorityRank High = 1"
| "priorityRank Normal = 2"
| "priorityRank Low = 3"

definition jobKey :: "CrawlJob \<Rightarrow> nat \<times> nat" where
  "jobKey j = (priorityRank (priority j), createdAt j)"

text \<open>
  \<^verbatim>\<open>getPendingJobs\<close>: the pending rows, \<^verbatim>\<open>ORDER BY\<close> rank and then \<^verbatim>\<open>created_at\<close>,
  \<^verbatim>\<open>LIMIT\<close> \<open>limit\<close>.  SQLite leaves the order of rows with equal keys open; the stable
  sort used here keeps them in insertion order.  The timestamps are ISO strings of one
  fixed width, which compare as the times do.
\<close>

definition getPendingJobs :: "VenomDatabase \<Rightarrow> nat \<Rightarrow> CrawlJob list" where
  "getPendingJobs db limit =
     take limit (sort_key jobKey (filter (\<lambda>j. status j = Pending) (jobs db)))"

definition updateJobStatus ::
  "VenomDatabase \<Rightarrow> string \<Rightarrow> CaptureStatus \<Rightarrow> string option \<Rightarrow> nat \<Rightarrow> VenomDatabase" where
  "updateJobStatus db jobId st msg now =
     db\<lparr>jobs := map (\<lambda>j. if id_job j = jobId
                           then j\<lparr>status := st, errorMessage := orNull msg, updatedAt := now\<rparr>
                           else j) (jobs db)\<rparr>"

definition incrementJobRetry :: "VenomDatabase \<Rightarrow> string \<Rightarrow> nat \<Rightarrow> VenomDatabase" where
  "incrementJobRetry db jobId now =
     db\<lparr>jobs := map (\<lambda>j. if id_job j = jobId
                           then j\<lparr>retryCount := retryCount j + 1, updatedAt := now\<rparr>
                           else j) (jobs db)\<rparr>"

text \<open>
  \<^verbatim>\<open>urlExists\<close>: both queries compare the argument as it is given, the first with the
  \<^verbatim>\<open>url\<close> column of the jobs, the second with the \<^verbatim>\<open>normalized_url\<close> column of the
  captures.
\<close>

definition urlExists :: "VenomDatabase \<Rightarrow> string \<Rightarrow> bool" where
  "urlExists db url =
     (list_ex (\<lambda>j. url_job j = url) (jobs db) \<or>
      list_ex (\<lambda>c. normalizedUrl c = url) (captures db))"

text \<open>\<^verbatim>\<open>saveCapture\<close>: \<^verbatim>\<open>INSERT OR REPLACE\<close> removes the rows that clash on a key first.\<close>

definition saveCapture :: "VenomDatabase \<Rightarrow> PageCapture \<Rightarrow> VenomDatabase" where
  "saveCapture db capture =
     db\<lparr>captures :=
          filter (\<lambda>c. \<not> (id_cap c = id_cap capture \<or> normalizedUrl c = normalizedUrl capture))
            (captures db) @ [capture]\<rparr>"

text \<open>\<^verbatim>\<open>getJobStats\<close>: the numbers of pending, completed and failed rows.\<close>

definition countStatus :: "VenomDatabase \<Rightarrow> CaptureStatus \<Rightarrow> nat" where
  "countStatus db st = length (filter (\<lambda>j. status j = st) (jobs db))"

definition getJobStats :: "VenomDatabase \<Rightarrow> nat \<times> nat \<times> nat" where
  "getJobStats db = (countStatus db Pending, countStatus db Completed, countStatus db Failed)"

section \<open>Robots gate (crawler/robots.ts)\<close>

text \<open>
  The parser object of the \<^verbatim>\<open>robots-parser\<close> library is the record of its three methods;
  \<^verbatim>\<open>isAllowed\<close> may answer \<^verbatim>\<open>undefined\<close>.  The library's constructor is a parameter of the
  model.  A fetch either fails (the \<^verbatim>\<open>fetch\<close> or the reading of the body throws) or
  answers with \<^verbatim>\<open>response.ok\<close>, the status and the body.
\<close>

record RobotsParser =
  isAllowed :: "string \<Rightarrow> string \<Rightarrow> bool option"
  getCrawlDelay :: "string \<Rightarrow> nat option"
  getSitemaps :: "string list"

datatype FetchOutcome = FetchFailed string | HttpResponse bool nat string

record RobotsTxtResult =
  isAllowed_result :: bool
  crawlDelay :: "nat option"
  sitemaps :: "string list"

text \<open>
  The module-level \<^verbatim>\<open>robotsCache\<close>, together with the list of the URLs fetched so far,
  which the source does not keep: it makes the fetches observable.
\<close>

record RobotsModule =
  robotsCache :: "string \<Rightarrow> RobotsParser option"
  fetched :: "string list"

definition fetchRobotsTxt ::
  "(string \<Rightarrow> string \<Rightarrow> RobotsParser) \<Rightarrow> (string \<Rightarrow> FetchOutcome) \<Rightarrow> RobotsModule \<Rightarrow> string
     \<Rightarrow> RobotsParser option \<times> RobotsModule" where
  "fetchRobotsTxt robotsParser fetch m domainName =
     (case robotsCache m domainName of
        Some parser \<Rightarrow> (Some parser, m)
      | None \<Rightarrow>
          let robotsUrl = ''https://'' @ domainName @ ''/robots.txt'';
              m1 = m\<lparr>fetched := fetched m @ [robotsUrl]\<rparr>
          in case fetch robotsUrl of
               FetchFailed e \<Rightarrow> (None, m1)
             | HttpResponse ok code robotsTxt \<Rightarrow>
                 if \<not> ok then (None, m1)
                 else let parser = robotsParser robotsUrl robotsTxt
                      in (Some parser, m1\<lparr>robotsCache := (robotsCache m1)(domainName := Some parser)\<rparr>))"

text \<open>
  \<^verbatim>\<open>checkRobotsTxt\<close>: \<^verbatim>\<open>new URL(url)\<close> is outside any \<^verbatim>\<open>try\<close>, so an unparsable URL
  makes the call fail (\<open>Inl\<close> with the message).
\<close>

definition checkRobotsTxt ::
  "(string \<Rightarrow> string \<Rightarrow> RobotsParser) \<Rightarrow> (string \<Rightarrow> FetchOutcome) \<Rightarrow> RobotsModule \<Rightarrow> string
     \<Rightarrow> string \<Rightarrow> (string + RobotsTxtResult) \<times> RobotsModule" where
  "checkRobotsTxt robotsParser fetch m url ua =
     (case URL_new url of
        None \<Rightarrow> (Inl ''Invalid URL'', m)
      | Some urlObj \<Rightarrow>
          (case fetchRobotsTxt robotsParser fetch m (hostname urlObj) of
             (None, m1) \<Rightarrow>
               (Inr \<lparr>isAllowed_result = True, crawlDelay = None, sitemaps = []\<rparr>, m1)
           | (Some parser, m1) \<Rightarrow>
               (Inr \<lparr>isAllowed_result = (case isAllowed parser url ua of None \<Rightarrow> True | Some b \<Rightarrow> b),
                     crawlDelay = (case getCrawlDelay parser ua of
                                     None \<Rightarrow> None
                                   | Some d \<Rightarrow> (if d = 0 then None else Some d)),
                     sitemaps = getSitemaps parser\<rparr>, m1)))"

section \<open>The running system\<close>

text \<open>
  \<open>World\<close> holds what stays fixed during a crawl: the configuration, the constructor
  arguments and options (\<^verbatim>\<open>maxRetries\<close>, \<^verbatim>\<open>maxUrls\<close>, \<^verbatim>\<open>captionOnCrawl\<close>, whether a captioner
  was created), and the outside sources \<^verbatim>\<open>robotsParser\<close>, \<^verbatim>\<open>randomUUID()\<close> and
  \<^verbatim>\<open>new Date()\<close>.  The last two are read at the counter \<open>tick\<close> of the state, which
  every call advances; nothing is assumed about the values they give, so identifiers
  may repeat and timestamps may tie.
\<close>

record World =
  config :: CrawlerConfig
  maxRetries :: nat
  maxUrls :: "nat option"
  captionOnCrawl :: bool
  hasCaptioner :: bool
  robotsParser :: "string \<Rightarrow> string \<Rightarrow> RobotsParser"
  randomUUID :: "nat \<Rightarrow> string"
  newDate :: "nat \<Rightarrow> nat"

text \<open>
  \<open>System\<close> is the mutable state: the database, the crawler's \<^verbatim>\<open>visitedUrls\<close> and
  whether its browser context exists, the robots module, the statistics, the local
  counter \<^verbatim>\<open>urlsCrawled\<close> of \<^verbatim>\<open>Venom.crawl\<close>, and of the job queue the flag
  \<^verbatim>\<open>isProcessing\<close> and the tasks handed to the worker pool that have not finished, each
  with the job object it closed over.
\<close>

record System =
  database :: VenomDatabase
  visitedUrls :: "string set"
  browserContext :: bool
  robots :: RobotsModule
  stats :: CrawlStats
  urlsCrawled_crawl :: nat
  isProcessing :: bool
  queue :: "CrawlJob list"
  tick :: nat

text \<open>
  What the outside does during one task: the network's answer to a fetch, the
  outcome of loading and extracting the page (an error message, or the links found),
  and whether the captioning call succeeds.
\<close>

datatype PageOutcome = PageError string | PageLoaded "ExtractedLink list"

record TaskEnv =
  fetch :: "string \<Rightarrow> FetchOutcome"
  page :: PageOutcome
  captionOk :: bool

subsection \<open>Crawler (crawler/crawler.ts)\<close>

text \<open>\<^verbatim>\<open>xs.slice(0, e)\<close>: a negative \<open>e\<close> counts from the end.\<close>

definition slice_0 :: "'a list \<Rightarrow> int \<Rightarrow> 'a list" where
  "slice_0 xs e = (if e < 0 then take (length xs - nat (- e)) xs else take (nat e) xs)"

definition getLinksToFollow ::
  "CrawlerConfig \<Rightarrow> string set \<Rightarrow> PageCapture \<Rightarrow> nat \<Rightarrow> string list" where
  "getLinksToFollow cfg visited capture maxDepth' =
     (if depth_cap capture \<ge> maxDepth' then []
      else slice_0
             (map href (filter (\<lambda>link. isInternal link \<and> shouldCrawl cfg visited (href link))
                          (links capture)))
             (maxUrlsPerDomain cfg))"

definition checkRobots ::
  "World \<Rightarrow> TaskEnv \<Rightarrow> RobotsModule \<Rightarrow> string \<Rightarrow> (string + bool) \<times> RobotsModule" where
  "checkRobots w env m url =
     (if \<not> respectRobotsTxt (config w) then (Inr True, m)
      else case checkRobotsTxt (robotsParser w) (fetch env) m url (userAgent (config w)) of
             (Inl e, m1) \<Rightarrow> (Inl e, m1)
           | (Inr result, m1) \<Rightarrow> (Inr (isAllowed_result result), m1))"

text \<open>
  \<^verbatim>\<open>Crawler.crawlUrl\<close>: \<open>Inl\<close> is a thrown error, \<open>Inr None\<close> the \<^verbatim>\<open>null\<close> of a URL that
  robots.txt blocks, \<open>Inr (Some capture)\<close> a capture.  Everything between opening the
  page and building the capture is the outside's \<open>page\<close> outcome.
\<close>

definition crawlUrl ::
  "World \<Rightarrow> TaskEnv \<Rightarrow> System \<Rightarrow> string \<Rightarrow> nat \<Rightarrow> (string + PageCapture option) \<times> System" where
  "crawlUrl w env s url depth =
     (if \<not> browserContext s then (Inl ''Browser not initialized. Call init() first.'', s)
      else
        let normalizedUrl' = normalizeUrl url;
            domain' = getDomain url;
            s1 = s\<lparr>visitedUrls := insert normalizedUrl' (visitedUrls s)\<rparr>
        in case checkRobots w env (robots s1) url of
             (Inl e, m) \<Rightarrow> (Inl e, s1\<lparr>robots := m\<rparr>)
           | (Inr robotsAllowed, m) \<Rightarrow>
               if \<not> robotsAllowed then (Inr None, s1\<lparr>robots := m\<rparr>)
               else
                 (case page env of
                    PageError e \<Rightarrow> (Inl e, s1\<lparr>robots := m\<rparr>)
                  | PageLoaded ls \<Rightarrow>
                      (Inr (Some \<lparr>id_cap = randomUUID w (tick s1), url_cap = url,
                                   normalizedUrl = normalizedUrl', domain = domain',
                                   depth_cap = depth, links = ls\<rparr>),
                       s1\<lparr>robots := m, tick := tick s1 + 1\<rparr>)))"

subsection \<open>JobQueue (queue/job-queue.ts)\<close>

text \<open>\<^verbatim>\<open>JobQueue.addUrl\<close>: \<open>None\<close> is the \<^verbatim>\<open>null\<close> returned for a URL that exists.\<close>

definition addUrl ::
  "World \<Rightarrow> System \<Rightarrow> string \<Rightarrow> nat \<Rightarrow> string option \<Rightarrow> JobPriority
     \<Rightarrow> CrawlJob option \<times> System" where
  "addUrl w s url depth parent prio =
     (if urlExists (database s) url then (None, s)
      else
        let job = \<lparr>id_job = randomUUID w (tick s), url_job = url, depth_job = depth,
                    parentUrl = parent, priority = prio, status = Pending, retryCount = 0,
                    errorMessage = None, createdAt = newDate w (tick s + 1),
                    updatedAt = newDate w (tick s + 2)\<rparr>
        in (Some job, s\<lparr>database := addJob (database s) job, tick := tick s + 3\<rparr>))"

text \<open>
  The loop of \<^verbatim>\<open>JobQueue.process\<close>.  \<open>dispatchJob\<close> is the body of its \<^verbatim>\<open>for\<close> loop:
  the row is marked \<^verbatim>\<open>crawling\<close> and a task closing over the job object is added to
  the pool.  \<open>poll\<close> is one round of the \<^verbatim>\<open>while\<close> loop that finds work.  The test
  that ends the loop is not modelled: it only ends the rounds.
\<close>

definition dispatchJob :: "World \<Rightarrow> System \<Rightarrow> CrawlJob \<Rightarrow> System" where
  "dispatchJob w s job =
     s\<lparr>database := updateJobStatus (database s) (id_job job) Crawling None (newDate w (tick s)),
       queue := queue s @ [job],
       tick := tick s + 1\<rparr>"

definition poll :: "World \<Rightarrow> System \<Rightarrow> System" where
  "poll w s = (if isProcessing s then foldl (dispatchJob w) s (getPendingJobs (database s) 10) else s)"

text \<open>\<^verbatim>\<open>JobQueue.stop\<close>\<close>

definition stop :: "System \<Rightarrow> System" where
  "stop s = s\<lparr>isProcessing := False\<rparr>"

subsection \<open>Venom (venom.ts)\<close>

definition bumpDiscovered :: "System \<Rightarrow> System" where
  "bumpDiscovered s = s\<lparr>stats := (stats s)\<lparr>urlsDiscovered := urlsDiscovered (stats s) + 1\<rparr>\<rparr>"

text \<open>\<^verbatim>\<open>Venom.addSeeds\<close>\<close>

fun addSeeds :: "World \<Rightarrow> System \<Rightarrow> string list \<Rightarrow> System" where
  "addSeeds w s [] = s"
| "addSeeds w s (url # urls) =
     (case addUrl w s url 0 None High of
        (None, s1) \<Rightarrow> addSeeds w s1 urls
      | (Some job, s1) \<Rightarrow> addSeeds w (bumpDiscovered s1) urls)"

text \<open>The loop over the links to follow in the handler of \<^verbatim>\<open>Venom.crawl\<close>.\<close>

fun enqueueLinks :: "World \<Rightarrow> System \<Rightarrow> CrawlJob \<Rightarrow> string list \<Rightarrow> System" where
  "enqueueLinks w s job [] = s"
| "enqueueLinks w s job (link # ls) =
     (case addUrl w s link (depth_job job + 1) (Some (url_job job)) Normal of
        (None, s1) \<Rightarrow> enqueueLinks w s1 job ls
      | (Some newJob, s1) \<Rightarrow> enqueueLinks w (bumpDiscovered s1) job ls)"

text \<open>
  The handler that \<^verbatim>\<open>Venom.crawl\<close> passes to the queue, run in one piece: \<open>Inl\<close> is the
  error it throws, \<open>Inr ()\<close> a normal return.  Its steps after a capture are
  \<open>recordCapture\<close> (the counters and \<^verbatim>\<open>saveCapture\<close>), \<open>captionCapture\<close> (of the
  captioning step only the counter is kept) and \<open>followLinks\<close> (the links to follow are
  enqueued when the job's depth is below the maximum).  \<^verbatim>\<open>maxUrls && ...\<close> is false for
  an absent and for a zero limit.
\<close>

definition maxUrlsReached :: "World \<Rightarrow> System \<Rightarrow> bool" where
  "maxUrlsReached w s =
     (case maxUrls w of None \<Rightarrow> False | Some m \<Rightarrow> m \<noteq> 0 \<and> urlsCrawled_crawl s \<ge> m)"

definition countFailed :: "System \<Rightarrow> System" where
  "countFailed s = s\<lparr>stats := (stats s)\<lparr>urlsFailed := urlsFailed (stats s) + 1\<rparr>\<rparr>"

definition countSkipped :: "System \<Rightarrow> System" where
  "countSkipped s = s\<lparr>stats := (stats s)\<lparr>urlsSkipped := urlsSkipped (stats s) + 1\<rparr>\<rparr>"

definition recordCapture :: "System \<Rightarrow> PageCapture \<Rightarrow> System" where
  "recordCapture s capture =
     s\<lparr>urlsCrawled_crawl := urlsCrawled_crawl s + 1,
       stats := (stats s)\<lparr>urlsCrawled := urlsCrawled (stats s) + 1,
                           screenshotsTaken := screenshotsTaken (stats s) + 1\<rparr>,
       database := saveCapture (database s) capture\<rparr>"

definition captionCapture :: "World \<Rightarrow> TaskEnv \<Rightarrow> System \<Rightarrow> System" where
  "captionCapture w env s =
     (if captionOnCrawl w \<and> hasCaptioner w \<and> captionOk env
      then s\<lparr>stats := (stats s)\<lparr>captionsGenerated := captionsGenerated (stats s) + 1\<rparr>\<rparr>
      else s)"

definition followLinks :: "World \<Rightarrow> System \<Rightarrow> CrawlJob \<Rightarrow> PageCapture \<Rightarrow> System" where
  "followLinks w s job capture =
     (if depth_job job < maxDepth (config w)
      then enqueueLinks w s job
             (getLinksToFollow (config w) (visitedUrls s) capture (maxDepth (config w)))
      else s)"

definition handler :: "World \<Rightarrow> TaskEnv \<Rightarrow> System \<Rightarrow> CrawlJob \<Rightarrow> (string + unit) \<times> System" where
  "handler w env s job =
     (if maxUrlsReached w s then (Inr (), stop s)
      else
        case crawlUrl w env s (url_job job) (depth_job job) of
          (Inl e, s1) \<Rightarrow> (Inl e, countFailed s1)
        | (Inr None, s1) \<Rightarrow> (Inr (), countSkipped s1)
        | (Inr (Some capture), s1) \<Rightarrow>
            (Inr (), followLinks w (captionCapture w env (recordCapture s1 capture)) job capture))"

text \<open>
  The task that \<^verbatim>\<open>process\<close> adds to the pool for a dispatched job: the handler, then
  \<^verbatim>\<open>completed\<close>, or in the \<^verbatim>\<open>catch\<close> the retry count and \<^verbatim>\<open>pending\<close> or \<^verbatim>\<open>failed\<close>.  The
  comparison reads \<^verbatim>\<open>job.retryCount\<close> of the job object that the task closed over.
\<close>

definition runTask :: "World \<Rightarrow> TaskEnv \<Rightarrow> System \<Rightarrow> CrawlJob \<Rightarrow> System" where
  "runTask w env s job =
     (case handler w env s job of
        (Inr u, s1) \<Rightarrow>
          s1\<lparr>database := updateJobStatus (database s1) (id_job job) Completed None
                            (newDate w (tick s1)),
             tick := tick s1 + 1\<rparr>
      | (Inl errorMessage', s1) \<Rightarrow>
          let db1 = incrementJobRetry (database s1) (id_job job) (newDate w (tick s1))
          in if retryCount job < maxRetries w
             then s1\<lparr>database := updateJobStatus db1 (id_job job) Pending (Some errorMessage')
                                     (newDate w (tick s1 + 1)),
                     tick := tick s1 + 2\<rparr>
             else s1\<lparr>database := updateJobStatus db1 (id_job job) Failed (Some errorMessage')
                                     (newDate w (tick s1 + 1)),
                     tick := tick s1 + 2\<rparr>)"

text \<open>
  The events of a crawl: a round of the loop, or the task at position \<open>i\<close> of the pool
  running to its end with what the outside does meanwhile.  The pool starts its tasks
  in the order they were added; any of them may finish first.  A task takes effect in
  one piece, at the moment it finishes: the database calls are synchronous, and what
  tasks in flight do to one another between their waits (marking URLs visited, filling
  the robots cache, counting towards \<^verbatim>\<open>maxUrls\<close>) is not modelled.  Pausing the pool in
  \<^verbatim>\<open>stop\<close> is not modelled either, so a task may still run after it.
\<close>

datatype Event = Poll | Task nat TaskEnv

definition popTask :: "System \<Rightarrow> nat \<Rightarrow> System" where
  "popTask s i = s\<lparr>queue := take i (queue s) @ drop (Suc i) (queue s)\<rparr>"

fun step :: "World \<Rightarrow> System \<Rightarrow> Event \<Rightarrow> System" where
  "step w s Poll = poll w s"
| "step w s (Task i env) =
     (if i < length (queue s) then runTask w env (popTask s i) (queue s ! i) else s)"

definition run :: "World \<Rightarrow> System \<Rightarrow> Event list \<Rightarrow> System" where
  "run w s events = foldl (step w) s events"

section \<open>The claims in the words of the specification\<close>


section \<open>Notions used in the statements\<close>

text \<open>
  \<open>jobRow db jobId\<close> is the row of the job with that id, \<open>jobIds\<close> the ids in the table.
\<close>

definition jobRow :: "VenomDatabase \<Rightarrow> string \<Rightarrow> CrawlJob option" where
  "jobRow db jobId = find (\<lambda>r. id_job r = jobId) (jobs db)"

definition jobIds :: "VenomDatabase \<Rightarrow> string list" where
  "jobIds db = map id_job (jobs db)"

text \<open>
  \<open>grows s s'\<close>: from \<open>s\<close> to \<open>s'\<close> the pool's tasks are the same, every row of the job
  table is still there unchanged, and ids and URLs that were pairwise distinct still are.
\<close>

definition grows :: "System \<Rightarrow> System \<Rightarrow> bool" where
  "grows s s' =
     (queue s' = queue s \<and>
      (\<forall>k r. jobRow (database s) k = Some r \<longrightarrow> jobRow (database s') k = Some r) \<and>
      (distinct (jobIds (database s)) \<longrightarrow> distinct (jobIds (database s'))) \<and>
      (distinct (map url_job (jobs (database s))) \<longrightarrow> distinct (map url_job (jobs (database s')))))"

text \<open>
  \<open>consistent s\<close>: the ids of the job table are pairwise distinct (the primary key), so
  are the ids of the tasks in the pool, and the row of every task in the pool is
  \<^verbatim>\<open>crawling\<close> with the retry count of the job object the task closed over.  It holds
  when \<^verbatim>\<open>process\<close> starts (the pool is empty) and is kept by every event
  (\<open>consistent_run\<close>).
\<close>

definition consistent :: "System \<Rightarrow> bool" where
  "consistent s =
     (distinct (jobIds (database s)) \<and> distinct (map id_job (queue s)) \<and>
      list_all (\<lambda>t. case jobRow (database s) (id_job t) of
                       None \<Rightarrow> False
                     | Some r \<Rightarrow> status r = Crawling \<and> retryCount r = retryCount t) (queue s))"

text \<open>\<open>settled s k r\<close>: the job \<open>k\<close> has the row \<open>r\<close>, is not pending and has no task in the pool.\<close>

definition settled :: "System \<Rightarrow> string \<Rightarrow> CrawlJob \<Rightarrow> bool" where
  "settled s k r =
     (jobRow (database s) k = Some r \<and> status r \<noteq> Pending \<and> k \<notin> id_job ` set (queue s))"

text \<open>
  For the retry policy.  \<open>runsJob s e k\<close>: the event \<open>e\<close> runs, in the state \<open>s\<close>, the task
  of the job \<open>k\<close>; \<open>throwsAt w s e k\<close>: it does, and the handler throws.
  \<open>alwaysThrows w s events k\<close>: in the execution of \<open>events\<close> from \<open>s\<close>, the handler throws
  every time the task of the job \<open>k\<close> is run (nothing is said of the handler at states
  the execution does not reach, nor of other jobs); \<open>failures w s events k\<close> counts these
  throws.  \<open>statusOf s k\<close> is the status of the row of the job \<open>k\<close>, and
  \<open>history w s events k\<close> the statuses the row takes on in the execution, one entry for
  each event that changes its status.  \<open>retryTrace m\<close> is \<^verbatim>\<open>crawling\<close>, \<^verbatim>\<open>pending\<close> repeated
  \<open>m\<close> times, then \<^verbatim>\<open>crawling\<close>, \<^verbatim>\<open>failed\<close>; \<open>traceFrom m n\<close> is what remains of it for a
  pending job with \<open>n\<close> failures counted, and \<open>expected w s k\<close> what remains of it for the
  job \<open>k\<close> in the state \<open>s\<close>.
\<close>

definition runsJob :: "System \<Rightarrow> Event \<Rightarrow> string \<Rightarrow> bool" where
  "runsJob s e k =
     (case e of Poll \<Rightarrow> False | Task i env \<Rightarrow> i < length (queue s) \<and> id_job (queue s ! i) = k)"

definition throwsAt :: "World \<Rightarrow> System \<Rightarrow> Event \<Rightarrow> string \<Rightarrow> bool" where
  "throwsAt w s e k =
     (case e of
        Poll \<Rightarrow> False
      | Task i env \<Rightarrow> i < length (queue s) \<and> id_job (queue s ! i) = k \<and>
                      isl (fst (handler w env (popTask s i) (queue s ! i))))"

fun alwaysThrows :: "World \<Rightarrow> System \<Rightarrow> Event list \<Rightarrow> string \<Rightarrow> bool" where
  "alwaysThrows w s [] k = True"
| "alwaysThrows w s (e # es) k =
     ((if runsJob s e k then throwsAt w s e k else True) \<and> alwaysThrows w (step w s e) es k)"

fun failures :: "World \<Rightarrow> System \<Rightarrow> Event list \<Rightarrow> string \<Rightarrow> nat" where
  "failures w s [] k = 0"
| "failures w s (e # es) k = (if throwsAt w s e k then 1 else 0) + failures w (step w s e) es k"

definition statusOf :: "System \<Rightarrow> string \<Rightarrow> CaptureStatus option" where
  "statusOf s k = map_option status (jobRow (database s) k)"

fun history :: "World \<Rightarrow> System \<Rightarrow> Event list \<Rightarrow> string \<Rightarrow> CaptureStatus list" where
  "history w s [] k = []"
| "history w s (e # es) k =
     (if statusOf (step w s e) k = statusOf s k then []
      else case statusOf (step w s e) k of None \<Rightarrow> [] | Some st \<Rightarrow> [st])
     @ history w (step w s e) es k"

definition traceFrom :: "nat \<Rightarrow> nat \<Rightarrow> CaptureStatus list" where
  "traceFrom m n = concat (replicate (m - n) [Crawling, Pending]) @ [Crawling, Failed]"

definition retryTrace :: "nat \<Rightarrow> CaptureStatus list" where
  "retryTrace m = traceFrom m 0"

definition expected :: "World \<Rightarrow> System \<Rightarrow> string \<Rightarrow> CaptureStatus list" where
  "expected w s k =
     (case jobRow (database s) k of
        None \<Rightarrow> []
      | Some r \<Rightarrow>
          if status r = Pending then traceFrom (maxRetries w) (retryCount r)
          else if status r = Crawling \<and> k \<in> id_job ` set (queue s)
          then tl (traceFrom (maxRetries w) (retryCount r))
          else [])"

text \<open>
  \<open>onlyPending s k n\<close>: the loop is running with an empty pool and the job \<open>k\<close>, with \<open>n\<close>
  retries counted, is the only pending row; \<open>failingRounds envs\<close> is the schedule that
  polls and runs the dispatched task once for each element of \<open>envs\<close>; \<open>retryBound w s k\<close>:
  the retry count of the job \<open>k\<close> is \<^verbatim>\<open>maxRetries + 1\<close> if it is failed and at most
  \<^verbatim>\<open>maxRetries\<close> otherwise.
\<close>

definition onlyPending :: "System \<Rightarrow> string \<Rightarrow> nat \<Rightarrow> bool" where
  "onlyPending s k n =
     (consistent s \<and> isProcessing s \<and> queue s = [] \<and>
      (case jobRow (database s) k of
         None \<Rightarrow> False
       | Some r \<Rightarrow> status r = Pending \<and> retryCount r = n) \<and>
      list_all (\<lambda>x. status x = Pending \<longrightarrow> id_job x = k) (jobs (database s)))"

definition failingRounds :: "TaskEnv list \<Rightarrow> Event list" where
  "failingRounds envs = concat (map (\<lambda>env. [Poll, Task 0 env]) envs)"

definition retryBound :: "World \<Rightarrow> System \<Rightarrow> string \<Rightarrow> bool" where
  "retryBound w s k =
     (case jobRow (database s) k of
        None \<Rightarrow> False
      | Some r \<Rightarrow> (if status r = Failed then retryCount r = maxRetries w + 1
                   else retryCount r \<le> maxRetries w))"

text \<open>
  The tracking parameters that \<open>normalizeUrl\<close> deletes, the parameters of a URL object that
  are not among them, and the relation of two URL objects that differ at most in the
  fragment and in tracking parameters.
\<close>

definition trackingParams :: "string list" where
  "trackingParams = [''utm_source'', ''utm_medium'', ''utm_campaign'', ''utm_content'', ''utm_term'',
                     ''ref'', ''fbclid'', ''gclid'']"

definition keptParams :: "URL \<Rightarrow> (string \<times> string) list" where
  "keptParams u = filter (\<lambda>(n, v). n \<notin> set trackingParams) (searchParams u)"

definition sameButFragmentAndTracking :: "URL \<Rightarrow> URL \<Rightarrow> bool" where
  "sameButFragmentAndTracking a b =
     (scheme a = scheme b \<and> host a = host b \<and> path a = path b \<and> keptParams a = keptParams b)"

section \<open>Example values\<close>

definition exampleConfig :: CrawlerConfig where
  "exampleConfig =
     \<lparr>maxDepth = 2, respectRobotsTxt = False, userAgent = ''Venom/1.0'', maxUrlsPerDomain = 1,
      allowedDomains = [], blockedDomains = []\<rparr>"

definition exampleParser :: "string \<Rightarrow> string \<Rightarrow> RobotsParser" where
  "exampleParser robotsUrl robotsTxt =
     \<lparr>isAllowed = (\<lambda>u a. None), getCrawlDelay = (\<lambda>a. None), getSitemaps = []\<rparr>"

definition emptyRobots :: RobotsModule where
  "emptyRobots = \<lparr>robotsCache = (\<lambda>d. None), fetched = []\<rparr>"

definition notFound :: "string \<Rightarrow> FetchOutcome" where
  "notFound u = HttpResponse False 404 []"

definition okEmpty :: "string \<Rightarrow> FetchOutcome" where
  "okEmpty u = HttpResponse True 200 []"

definition exampleJob :: "string \<Rightarrow> JobPriority \<Rightarrow> nat \<Rightarrow> CrawlJob" where
  "exampleJob u p t =
     \<lparr>id_job = u, url_job = u, depth_job = 0, parentUrl = None, priority = p, status = Pending,
      retryCount = 0, errorMessage = None, createdAt = t, updatedAt = t\<rparr>"

definition exampleWorld :: World where
  "exampleWorld =
     \<lparr>config = exampleConfig, maxRetries = 3, maxUrls = None, captionOnCrawl = False,
      hasCaptioner = False,
      robotsParser = exampleParser,
      randomUUID = (\<lambda>n. ''job-'' @ replicate n (CHR ''i'')),
      newDate = (\<lambda>n. n)\<rparr>"

definition emptySystem :: System where
  "emptySystem =
     \<lparr>database = \<lparr>jobs = [], captures = []\<rparr>, visitedUrls = {}, browserContext = True,
      robots = emptyRobots,
      stats = \<lparr>urlsDiscovered = 0, urlsCrawled = 0, urlsFailed = 0, urlsSkipped = 0,
               screenshotsTaken = 0, captionsGenerated = 0\<rparr>,
      urlsCrawled_crawl = 0, isProcessing = True, queue = [], tick = 0\<rparr>"

definition threeJobs :: System where
  "threeJobs =
     emptySystem\<lparr>database :=
       \<lparr>jobs = [exampleJob ''l'' Low 1, exampleJob ''h'' High 2, exampleJob ''n'' Normal 3],
        captures = []\<rparr>\<rparr>"

definition internalLink :: "string \<Rightarrow> ExtractedLink" where
  "internalLink u = \<lparr>href = u, text_link = [], isInternal = True\<rparr>"

definition loadedEnv :: "string list \<Rightarrow> TaskEnv" where
  "loadedEnv us = \<lparr>fetch = notFound, page = PageLoaded (map internalLink us), captionOk = False\<rparr>"

text \<open>Worlds, outsides and states for the examples.\<close>

definition failingEnv :: TaskEnv where
  "failingEnv = \<lparr>fetch = notFound, page = PageError ''net::ERR_FAILED'', captionOk = False\<rparr>"

definition seeded :: System where
  "seeded = addSeeds exampleWorld emptySystem [''https://a.com/'']"

definition budgetRun :: System where
  "budgetRun = run exampleWorld (addSeeds exampleWorld emptySystem [''https://a.com/''])
      [Poll, Task 0 (loadedEnv [''https://a.com/1'', ''https://a.com/2'']),
       Poll, Task 0 (loadedEnv [''https://a.com/3''])]"

definition twoAdds :: System where
  "twoAdds =
     snd (addUrl exampleWorld
            (snd (addUrl exampleWorld emptySystem ''https://a.com/x'' 0 None Normal))
            ''https://a.com/x#top'' 0 None Normal)"

definition crawledOnce :: System where
  "crawledOnce = run exampleWorld (addSeeds exampleWorld emptySystem [''https://a.com/x''])
      [Poll, Task 0 (loadedEnv [])]"

definition denyAll :: "string \<Rightarrow> string \<Rightarrow> RobotsParser" where
  "denyAll robotsUrl robotsTxt =
     \<lparr>isAllowed = (\<lambda>u a. Some False), getCrawlDelay = (\<lambda>a. None), getSitemaps = []\<rparr>"

definition strictWorld :: World where
  "strictWorld = exampleWorld\<lparr>config := exampleConfig\<lparr>respectRobotsTxt := True\<rparr>,
                               robotsParser := denyAll\<rparr>"

definition robotsEnv :: TaskEnv where
  "robotsEnv = \<lparr>fetch = okEmpty, page = PageLoaded [], captionOk = False\<rparr>"

definition dispatched :: System where
  "dispatched = step strictWorld (addSeeds strictWorld emptySystem [''https://a.com/x'']) Poll"

definition flatWorld :: World where
  "flatWorld = exampleWorld\<lparr>config := exampleConfig\<lparr>maxDepth := 0, maxUrlsPerDomain := 100\<rparr>\<rparr>"

definition seedCapture :: PageCapture where
  "seedCapture = \<lparr>id_cap = ''c1'', url_cap = ''https://a.com/'', normalizedUrl = ''https://a.com/'',
                  domain = ''a.com'', depth_cap = 0, links = [internalLink ''https://a.com/1'']\<rparr>"

text \<open>
  For the retry policy: a world that respects robots.txt and limits the crawl to ten
  URLs; two seeds, and a schedule in which the page of the first seed fails to load each
  of the four times its task is run while the second seed is crawled; and one seed alone.
\<close>

definition retryWorld :: World where
  "retryWorld = exampleWorld\<lparr>config := exampleConfig\<lparr>respectRobotsTxt := True, maxUrlsPerDomain := 100\<rparr>,
                              maxUrls := Some 10\<rparr>"

definition twoSeeds :: System where
  "twoSeeds = addSeeds retryWorld emptySystem [''https://a.com/'', ''https://b.com/'']"

definition retrySchedule :: "Event list" where
  "retrySchedule = [Poll, Task 0 failingEnv, Task 0 (loadedEnv []), Poll, Task 0 failingEnv,
                    Poll, Task 0 failingEnv, Poll, Task 0 failingEnv, Poll]"

definition oneSeed :: System where
  "oneSeed = addSeeds retryWorld emptySystem [''https://a.com/'']"

section \<open>URL normalisation and admission: proofs\<close>


lemma normalizeUrl_unparsable: "URL_new url = None \<Longrightarrow> normalizeUrl url = url"
  by (simp add: normalizeUrl_def normalizeUrl_try_def)

lemma normalizeUrl_try_None: "normalizeUrl_try url = None \<longleftrightarrow> URL_new url = None"
  by (simp add: normalizeUrl_try_def Let_def split: option.splits)

lemma getDomain_unparsable: "URL_new url = None \<Longrightarrow> getDomain url = []"
  by (simp add: getDomain_def)

lemma URL_new_not_a_url: "URL_new ''not a url'' = None"
  by code_simp

text \<open>
  C5.  \<open>normalizeUrl\<close> and \<open>getDomain\<close> return a string on every input: the only step
  of the guarded block of \<open>normalizeUrl\<close> that can throw is the constructor, and where
  the constructor throws \<open>normalizeUrl\<close> returns its input unchanged and \<open>getDomain\<close>
  returns the empty string.
\<close>

theorem normalizeUrl_getDomain_total:
  "(normalizeUrl_try url = None \<longleftrightarrow> URL_new url = None) \<and>
   (URL_new url = None \<longrightarrow> normalizeUrl url = url \<and> getDomain url = [])"
  by (simp add: normalizeUrl_try_None normalizeUrl_unparsable getDomain_unparsable)

theorem normalizeUrl_getDomain_total_witness:
  "URL_new ''not a url'' = None \<and> normalizeUrl ''not a url'' = ''not a url'' \<and>
   getDomain ''not a url'' = []"
  using normalizeUrl_getDomain_total [of "''not a url''"] URL_new_not_a_url by simp














section \<open>The pending batch: proofs\<close>

lemma getPendingJobs_sorted: "sorted (map jobKey (getPendingJobs db limit))"
  by (simp add: getPendingJobs_def take_map [symmetric] sorted_wrt_take)

lemma getPendingJobs_set:
  "set (getPendingJobs db limit) \<subseteq> {j \<in> set (jobs db). status j = Pending}"
proof -
  have "set (getPendingJobs db limit)
      \<subseteq> set (sort_key jobKey (filter (\<lambda>j. status j = Pending) (jobs db)))"
    unfolding getPendingJobs_def by (rule set_take_subset)
  then show ?thesis by auto
qed

lemma getPendingJobs_length: "length (getPendingJobs db limit) \<le> limit"
  by (simp add: getPendingJobs_def)

lemma jobKey_le:
  "jobKey a \<le> jobKey b \<longleftrightarrow>
     priorityRank (priority a) < priorityRank (priority b) \<or>
     (priorityRank (priority a) = priorityRank (priority b) \<and> createdAt a \<le> createdAt b)"
  by (auto simp: jobKey_def less_eq_prod_def)

lemma getPendingJobs_order:
  assumes "i < k" "k < length (getPendingJobs db limit)"
  shows "jobKey (getPendingJobs db limit ! i) \<le> jobKey (getPendingJobs db limit ! k)"
proof -
  have "sorted (map jobKey (getPendingJobs db limit))" by (rule getPendingJobs_sorted)
  then have "map jobKey (getPendingJobs db limit) ! i \<le> map jobKey (getPendingJobs db limit) ! k"
    using assms by (intro sorted_nth_mono) simp_all
  then show ?thesis using assms by simp
qed

lemma getPendingJobs_first:
  assumes "j \<in> set (jobs db)" "status j = Pending" "j \<notin> set (getPendingJobs db limit)"
    and "b \<in> set (getPendingJobs db limit)"
  shows "jobKey b \<le> jobKey j"
proof -
  let ?xs = "sort_key jobKey (filter (\<lambda>j. status j = Pending) (jobs db))"
  have "j \<in> set ?xs" using assms(1,2) by simp
  then have "j \<in> set (take limit ?xs) \<or> j \<in> set (drop limit ?xs)"
    by (metis Un_iff append_take_drop_id set_append)
  with assms(3) have jd: "j \<in> set (drop limit ?xs)" by (simp add: getPendingJobs_def)
  have bt: "b \<in> set (take limit ?xs)" using assms(4) by (simp add: getPendingJobs_def)
  have "sorted (map jobKey (take limit ?xs @ drop limit ?xs))" by simp
  then have "\<forall>x\<in>set (map jobKey (take limit ?xs)). \<forall>y\<in>set (map jobKey (drop limit ?xs)). x \<le> y"
    unfolding map_append sorted_append by blast
  with jd bt show ?thesis by auto
qed

lemma queue_dispatch: "queue (foldl (dispatchJob w) s js) = queue s @ js"
  by (induction js arbitrary: s) (simp_all add: dispatchJob_def)

lemma queue_poll: "isProcessing s \<Longrightarrow> queue (poll w s) = queue s @ getPendingJobs (database s) 10"
  by (simp add: poll_def queue_dispatch)

lemma three_jobs:
  assumes "jobs db = [jl, jh, jn]" "status jl = Pending" "status jh = Pending" "status jn = Pending"
    "priority jl = Low" "priority jh = High" "priority jn = Normal" "3 \<le> limit"
  shows "getPendingJobs db limit = [jh, jn, jl]"
  using assms by (simp add: getPendingJobs_def jobKey_def less_eq_prod_def)

text \<open>
  C3.  Every batch of \<open>getPendingJobs\<close> holds pending rows only, at most \<open>limit\<close> of
  them, in the order of the priority tier (high, then normal, then low) and of the
  creation time within a tier, and no pending row left out comes before a row of the
  batch in that order.  A round of the loop hands the batch to the pool in this order;
  so three pending jobs inserted as low, high, normal are dispatched as high, normal,
  low.
\<close>

theorem getPendingJobs_priority_fifo:
  "(\<forall>j \<in> set (getPendingJobs db limit). j \<in> set (jobs db) \<and> status j = Pending) \<and>
   length (getPendingJobs db limit) \<le> limit \<and>
   (\<forall>i k. i < k \<and> k < length (getPendingJobs db limit) \<longrightarrow>
      priorityRank (priority (getPendingJobs db limit ! i))
        \<le> priorityRank (priority (getPendingJobs db limit ! k)) \<and>
      (priority (getPendingJobs db limit ! i) = priority (getPendingJobs db limit ! k) \<longrightarrow>
         createdAt (getPendingJobs db limit ! i) \<le> createdAt (getPendingJobs db limit ! k))) \<and>
   (\<forall>j b. j \<in> set (jobs db) \<and> status j = Pending \<and> j \<notin> set (getPendingJobs db limit) \<and>
      b \<in> set (getPendingJobs db limit) \<longrightarrow> jobKey b \<le> jobKey j) \<and>
   (isProcessing s \<longrightarrow> queue (poll w s) = queue s @ getPendingJobs (database s) 10) \<and>
   (isProcessing s \<and> queue s = [] \<and> jobs (database s) = [jl, jh, jn] \<and>
    status jl = Pending \<and> status jh = Pending \<and> status jn = Pending \<and>
    priority jl = Low \<and> priority jh = High \<and> priority jn = Normal \<longrightarrow>
      queue (poll w s) = [jh, jn, jl])"
proof (intro conjI allI impI ballI)
  fix j assume "j \<in> set (getPendingJobs db limit)"
  then show "j \<in> set (jobs db)" "status j = Pending" using getPendingJobs_set by blast+
next
  show "length (getPendingJobs db limit) \<le> limit" by (rule getPendingJobs_length)
next
  fix i k assume ik: "i < k \<and> k < length (getPendingJobs db limit)"
  then have le: "jobKey (getPendingJobs db limit ! i) \<le> jobKey (getPendingJobs db limit ! k)"
    using getPendingJobs_order by blast
  then show "priorityRank (priority (getPendingJobs db limit ! i))
        \<le> priorityRank (priority (getPendingJobs db limit ! k))"
    unfolding jobKey_le by linarith
  assume "priority (getPendingJobs db limit ! i) = priority (getPendingJobs db limit ! k)"
  with le show "createdAt (getPendingJobs db limit ! i) \<le> createdAt (getPendingJobs db limit ! k)"
    unfolding jobKey_le by simp
next
  fix j b
  assume "j \<in> set (jobs db) \<and> status j = Pending \<and> j \<notin> set (getPendingJobs db limit) \<and>
      b \<in> set (getPendingJobs db limit)"
  then show "jobKey b \<le> jobKey j" using getPendingJobs_first by blast
next
  assume "isProcessing s"
  then show "queue (poll w s) = queue s @ getPendingJobs (database s) 10" by (rule queue_poll)
next
  assume a: "isProcessing s \<and> queue s = [] \<and> jobs (database s) = [jl, jh, jn] \<and>
    status jl = Pending \<and> status jh = Pending \<and> status jn = Pending \<and>
    priority jl = Low \<and> priority jh = High \<and> priority jn = Normal"
  then have "getPendingJobs (database s) 10 = [jh, jn, jl]" by (intro three_jobs) simp_all
  with a show "queue (poll w s) = [jh, jn, jl]" by (simp add: queue_poll)
qed

theorem getPendingJobs_priority_fifo_witness:
  "queue (poll exampleWorld threeJobs) = [exampleJob ''h'' High 2, exampleJob ''n'' Normal 3, exampleJob ''l'' Low 1] \<and>
   getPendingJobs (database threeJobs) 2 = [exampleJob ''h'' High 2, exampleJob ''n'' Normal 3]"
proof -
  have a: "isProcessing threeJobs \<and> queue threeJobs = [] \<and>
      jobs (database threeJobs) = [exampleJob ''l'' Low 1, exampleJob ''h'' High 2, exampleJob ''n'' Normal 3] \<and>
      status (exampleJob ''l'' Low 1) = Pending \<and> status (exampleJob ''h'' High 2) = Pending \<and>
      status (exampleJob ''n'' Normal 3) = Pending \<and> priority (exampleJob ''l'' Low 1) = Low \<and>
      priority (exampleJob ''h'' High 2) = High \<and> priority (exampleJob ''n'' Normal 3) = Normal"
    by (simp add: threeJobs_def emptySystem_def exampleJob_def)
  have b: "getPendingJobs (database threeJobs) 2 = [exampleJob ''h'' High 2, exampleJob ''n'' Normal 3]"
    by (simp add: threeJobs_def emptySystem_def exampleJob_def getPendingJobs_def jobKey_def less_eq_prod_def)
  from getPendingJobs_priority_fifo [of "database threeJobs" 2 threeJobs exampleWorld
      "exampleJob ''l'' Low 1" "exampleJob ''h'' High 2" "exampleJob ''n'' Normal 3"] a b
  show ?thesis by blast
qed

section \<open>Robots gate: proofs\<close>

lemma fetchRobotsTxt_failure:
  assumes "robotsCache m d = None"
    and "net (''https://'' @ d @ ''/robots.txt'') = FetchFailed e \<or>
         net (''https://'' @ d @ ''/robots.txt'') = HttpResponse False code body"
  shows "fetchRobotsTxt rp net m d = (None, m\<lparr>fetched := fetched m @ [''https://'' @ d @ ''/robots.txt'']\<rparr>)"
  using assms by (auto simp: fetchRobotsTxt_def Let_def)

lemma fetchRobotsTxt_success:
  assumes "robotsCache m d = None"
    and "net (''https://'' @ d @ ''/robots.txt'') = HttpResponse True code body"
  shows "fetchRobotsTxt rp net m d =
     (Some (rp (''https://'' @ d @ ''/robots.txt'') body),
      m\<lparr>fetched := fetched m @ [''https://'' @ d @ ''/robots.txt''],
        robotsCache := (robotsCache m)(d := Some (rp (''https://'' @ d @ ''/robots.txt'') body))\<rparr>)"
  using assms by (auto simp: fetchRobotsTxt_def Let_def)

lemma fetchRobotsTxt_cached:
  assumes "robotsCache m d = Some p"
  shows "fetchRobotsTxt rp net m d = (Some p, m)"
  using assms by (simp add: fetchRobotsTxt_def)

lemma fetchRobotsTxt_uncached_fetches:
  assumes "robotsCache m d = None"
  shows "fetched (snd (fetchRobotsTxt rp net m d)) = fetched m @ [''https://'' @ d @ ''/robots.txt'']"
  using assms by (auto simp: fetchRobotsTxt_def Let_def split: FetchOutcome.splits)

lemma checkRobotsTxt_fetches:
  assumes "URL_new url = Some urlObj" "robotsCache m (hostname urlObj) = None"
  shows "fetched (snd (checkRobotsTxt rp net m url ua))
       = fetched m @ [''https://'' @ hostname urlObj @ ''/robots.txt'']"
proof -
  have "fetched (snd (fetchRobotsTxt rp net m (hostname urlObj)))
      = fetched m @ [''https://'' @ hostname urlObj @ ''/robots.txt'']"
    using assms(2) by (rule fetchRobotsTxt_uncached_fetches)
  then show ?thesis
    using assms(1)
    by (cases "fetchRobotsTxt rp net m (hostname urlObj)")
       (auto simp: checkRobotsTxt_def split: option.splits)
qed

lemma checkRobotsTxt_cached:
  assumes "URL_new url = Some urlObj" "robotsCache m (hostname urlObj) = Some p"
  shows "snd (checkRobotsTxt rp net m url ua) = m"
  using assms by (simp add: checkRobotsTxt_def fetchRobotsTxt_cached)

lemma checkRobotsTxt_failure:
  assumes "URL_new url = Some urlObj" "robotsCache m (hostname urlObj) = None"
    and "net (''https://'' @ hostname urlObj @ ''/robots.txt'') = FetchFailed e \<or>
         net (''https://'' @ hostname urlObj @ ''/robots.txt'') = HttpResponse False code body"
  shows "checkRobotsTxt rp net m url ua =
     (Inr \<lparr>isAllowed_result = True, crawlDelay = None, sitemaps = []\<rparr>,
      m\<lparr>fetched := fetched m @ [''https://'' @ hostname urlObj @ ''/robots.txt'']\<rparr>)"
  using assms fetchRobotsTxt_failure [of m "hostname urlObj" net e code body rp]
  by (simp add: checkRobotsTxt_def)

lemma checkRobotsTxt_success:
  assumes "URL_new url = Some urlObj" "robotsCache m (hostname urlObj) = None"
    and "net (''https://'' @ hostname urlObj @ ''/robots.txt'') = HttpResponse True code body"
  shows "snd (checkRobotsTxt rp net m url ua) =
      m\<lparr>fetched := fetched m @ [''https://'' @ hostname urlObj @ ''/robots.txt''],
        robotsCache := (robotsCache m)(hostname urlObj :=
           Some (rp (''https://'' @ hostname urlObj @ ''/robots.txt'') body))\<rparr>"
  using assms fetchRobotsTxt_success [of m "hostname urlObj" net code body rp]
  by (simp add: checkRobotsTxt_def)

lemma URL_new_a_x:
  "URL_new ''https://a.com/x'' =
     Some \<lparr>scheme = ''https'', host = ''a.com'', path = ''/x'', query = None, fragment = None,
            searchParams = []\<rparr>"
  by code_simp

text \<open>
  C7.  When the robots.txt fetch for the domain of a URL fails or answers without
  success and nothing is cached for the domain, \<open>checkRobotsTxt\<close> allows the URL with
  no crawl delay and no sitemaps, and leaves the cache as it was, so that the next check
  for a URL of that domain fetches again; after a successful fetch the parser is cached
  and the next check does not fetch.
\<close>

theorem robots_failure_not_cached:
  assumes "URL_new url = Some urlObj"
    and "URL_new urlB = Some urlObjB"
    and "hostname urlObjB = hostname urlObj"
    and "robotsCache m (hostname urlObj) = None"
    and "net (''https://'' @ hostname urlObj @ ''/robots.txt'') = FetchFailed e \<or>
         net (''https://'' @ hostname urlObj @ ''/robots.txt'') = HttpResponse False code body"
    and "netOk (''https://'' @ hostname urlObj @ ''/robots.txt'') = HttpResponse True codeOk bodyOk"
  shows "checkRobotsTxt rp net m url ua =
           (Inr \<lparr>isAllowed_result = True, crawlDelay = None, sitemaps = []\<rparr>,
            m\<lparr>fetched := fetched m @ [''https://'' @ hostname urlObj @ ''/robots.txt'']\<rparr>) \<and>
         robotsCache (snd (checkRobotsTxt rp net m url ua)) = robotsCache m \<and>
         fetched (snd (checkRobotsTxt rp netB (snd (checkRobotsTxt rp net m url ua)) urlB uaB))
           = fetched m @ [''https://'' @ hostname urlObj @ ''/robots.txt'',
                          ''https://'' @ hostname urlObj @ ''/robots.txt''] \<and>
         robotsCache (snd (checkRobotsTxt rp netOk m url ua)) (hostname urlObj)
           = Some (rp (''https://'' @ hostname urlObj @ ''/robots.txt'') bodyOk) \<and>
         fetched (snd (checkRobotsTxt rp netB (snd (checkRobotsTxt rp netOk m url ua)) urlB uaB))
           = fetched m @ [''https://'' @ hostname urlObj @ ''/robots.txt'']"
proof -
  let ?r = "''https://'' @ hostname urlObj @ ''/robots.txt''"
  have f: "checkRobotsTxt rp net m url ua =
           (Inr \<lparr>isAllowed_result = True, crawlDelay = None, sitemaps = []\<rparr>,
            m\<lparr>fetched := fetched m @ [?r]\<rparr>)"
    using assms(1,4,5) by (rule checkRobotsTxt_failure)
  have c: "robotsCache (m\<lparr>fetched := fetched m @ [?r]\<rparr>) (hostname urlObjB) = None"
    using assms(3,4) by simp
  have again: "fetched (snd (checkRobotsTxt rp netB (m\<lparr>fetched := fetched m @ [?r]\<rparr>) urlB uaB))
      = fetched m @ [?r, ?r]"
    using checkRobotsTxt_fetches [OF assms(2) c] assms(3) by simp
  have s: "snd (checkRobotsTxt rp netOk m url ua) =
      m\<lparr>fetched := fetched m @ [?r], robotsCache := (robotsCache m)(hostname urlObj := Some (rp ?r bodyOk))\<rparr>"
    using assms(1,4,6) by (rule checkRobotsTxt_success)
  have hit: "robotsCache (m\<lparr>fetched := fetched m @ [?r],
        robotsCache := (robotsCache m)(hostname urlObj := Some (rp ?r bodyOk))\<rparr>) (hostname urlObjB)
      = Some (rp ?r bodyOk)"
    using assms(3) by simp
  have once: "fetched (snd (checkRobotsTxt rp netB (snd (checkRobotsTxt rp netOk m url ua)) urlB uaB))
      = fetched m @ [?r]"
    unfolding s using checkRobotsTxt_cached [OF assms(2) hit] by simp
  show ?thesis using f again s once by simp
qed

theorem robots_failure_not_cached_witness:
  "checkRobotsTxt exampleParser notFound emptyRobots ''https://a.com/x'' ''Venom/1.0'' =
     (Inr \<lparr>isAllowed_result = True, crawlDelay = None, sitemaps = []\<rparr>,
      emptyRobots\<lparr>fetched := [''https://a.com/robots.txt'']\<rparr>) \<and>
   fetched (snd (checkRobotsTxt exampleParser notFound
      (snd (checkRobotsTxt exampleParser notFound emptyRobots ''https://a.com/x'' ''Venom/1.0''))
      ''https://a.com/x'' ''Venom/1.0'')) = [''https://a.com/robots.txt'', ''https://a.com/robots.txt'']"
proof -
  let ?u = "\<lparr>scheme = ''https'', host = ''a.com'', path = ''/x'', query = None, fragment = None,
            searchParams = []\<rparr>"
  have h1: "robotsCache emptyRobots (hostname ?u) = None" by (simp add: emptyRobots_def)
  have h2: "notFound (''https://'' @ hostname ?u @ ''/robots.txt'') = FetchFailed [] \<or>
         notFound (''https://'' @ hostname ?u @ ''/robots.txt'') = HttpResponse False 404 []"
    by (simp add: notFound_def)
  have h3: "okEmpty (''https://'' @ hostname ?u @ ''/robots.txt'') = HttpResponse True 200 []"
    by (simp add: okEmpty_def)
  note inst = robots_failure_not_cached [where url = "''https://a.com/x''" and urlObj = ?u
      and urlB = "''https://a.com/x''" and urlObjB = ?u and m = emptyRobots and net = notFound
      and e = "[]" and code = 404 and body = "[]" and netOk = okEmpty and codeOk = 200
      and bodyOk = "[]" and rp = exampleParser and ua = "''Venom/1.0''" and netB = notFound
      and uaB = "''Venom/1.0''", OF URL_new_a_x URL_new_a_x refl h1 h2 h3]
  have c1: "checkRobotsTxt exampleParser notFound emptyRobots ''https://a.com/x'' ''Venom/1.0'' =
     (Inr \<lparr>isAllowed_result = True, crawlDelay = None, sitemaps = []\<rparr>,
      emptyRobots\<lparr>fetched := [''https://a.com/robots.txt'']\<rparr>)"
    using inst [THEN conjunct1] by (simp add: hostname_def emptyRobots_def)
  have c3: "fetched (snd (checkRobotsTxt exampleParser notFound
      (snd (checkRobotsTxt exampleParser notFound emptyRobots ''https://a.com/x'' ''Venom/1.0''))
      ''https://a.com/x'' ''Venom/1.0'')) = [''https://a.com/robots.txt'', ''https://a.com/robots.txt'']"
    using inst [THEN conjunct2, THEN conjunct2, THEN conjunct1]
    by (simp add: hostname_def emptyRobots_def)
  show ?thesis using c1 c3 by blast
qed

section \<open>Fragments, tracking parameters and the trailing slash: proofs\<close>

lemma delete_twice:
  "searchParams_delete n (u\<lparr>searchParams := l, query := q\<rparr>) =
     u\<lparr>searchParams := filter (\<lambda>(m, v). m \<noteq> n) l,
       query := (if urlencodedSerialize (filter (\<lambda>(m, v). m \<noteq> n) l) = [] then None
                 else Some (urlencodedSerialize (filter (\<lambda>(m, v). m \<noteq> n) l)))\<rparr>"
  by (simp add: searchParams_delete_def Let_def)

lemma delete_first:
  "searchParams_delete n u =
     u\<lparr>searchParams := filter (\<lambda>(m, v). m \<noteq> n) (searchParams u),
       query := (if urlencodedSerialize (filter (\<lambda>(m, v). m \<noteq> n) (searchParams u)) = [] then None
                 else Some (urlencodedSerialize (filter (\<lambda>(m, v). m \<noteq> n) (searchParams u))))\<rparr>"
  by (simp add: searchParams_delete_def Let_def)

lemma tracking_filter:
  "filter (\<lambda>(m, v). m \<noteq> ''gclid'') (filter (\<lambda>(m, v). m \<noteq> ''fbclid'')
     (filter (\<lambda>(m, v). m \<noteq> ''ref'') (filter (\<lambda>(m, v). m \<noteq> ''utm_term'')
     (filter (\<lambda>(m, v). m \<noteq> ''utm_content'') (filter (\<lambda>(m, v). m \<noteq> ''utm_campaign'')
     (filter (\<lambda>(m, v). m \<noteq> ''utm_medium'') (filter (\<lambda>(m, v). m \<noteq> ''utm_source'') l)))))))
   = filter (\<lambda>(n, v). n \<notin> set trackingParams) l"
  by (induction l) (auto simp: trackingParams_def)

lemma cleaned:
  "searchParams_delete ''gclid''
               (searchParams_delete ''fbclid''
               (searchParams_delete ''ref''
               (searchParams_delete ''utm_term''
               (searchParams_delete ''utm_content''
               (searchParams_delete ''utm_campaign''
               (searchParams_delete ''utm_medium''
               (searchParams_delete ''utm_source''
               (hash_clear u))))))))
   = u\<lparr>fragment := None, searchParams := keptParams u,
       query := (if urlencodedSerialize (keptParams u) = [] then None
                 else Some (urlencodedSerialize (keptParams u)))\<rparr>"
proof -
  have "searchParams_delete ''utm_source'' (hash_clear u) =
      u\<lparr>fragment := None\<rparr>\<lparr>searchParams := filter (\<lambda>(m, v). m \<noteq> ''utm_source'') (searchParams u),
        query := (if urlencodedSerialize (filter (\<lambda>(m, v). m \<noteq> ''utm_source'') (searchParams u)) = [] then None
                 else Some (urlencodedSerialize (filter (\<lambda>(m, v). m \<noteq> ''utm_source'') (searchParams u))))\<rparr>"
    by (simp add: delete_first hash_clear_def)
  then show ?thesis
    unfolding keptParams_def tracking_filter [symmetric]
    by (simp only: delete_twice)
qed

lemma normalizeUrl_fragment_tracking:
  assumes "URL_new u1 = Some a" "URL_new u2 = Some b" "sameButFragmentAndTracking a b"
  shows "normalizeUrl u1 = normalizeUrl u2"
  using assms
  by (simp add: normalizeUrl_def normalizeUrl_try_def cleaned Let_def toString_def pathname_def
      sameButFragmentAndTracking_def)

text \<open>
  C4.  The code at inputs that differ only by the trailing slash of a non-root path:
  with a query that stays, the serialized URL does not end in the slash, which is
  therefore kept, and the two URLs keep different forms.  The example of the claim
  evaluates as stated, and \<open>normalizeUrl_fragment_tracking\<close> above covers fragments and
  tracking parameters.
\<close>

theorem normalizeUrl_trailing_slash_before_query:
  "normalizeUrl ''https://a.com/x/?q=1'' = ''https://a.com/x/?q=1'' \<and>
   normalizeUrl ''https://a.com/x?q=1'' = ''https://a.com/x?q=1'' \<and>
   normalizeUrl ''https://a.com/x/?utm_source=y#frag'' = ''https://a.com/x'' \<and>
   normalizeUrl ''https://a.com/x'' = ''https://a.com/x''"
  by code_simp

section \<open>The job table: proofs\<close>

lemma jobRow_updateJobStatus:
  "jobRow (updateJobStatus db jid st msg now) k =
     (if k = jid
      then map_option (\<lambda>r. r\<lparr>status := st, errorMessage := orNull msg, updatedAt := now\<rparr>) (jobRow db k)
      else jobRow db k)"
proof (cases "k = jid")
  case True
  have "find (\<lambda>r. id_job r = jid) (map (\<lambda>j. if id_job j = jid
          then j\<lparr>status := st, errorMessage := orNull msg, updatedAt := now\<rparr> else j) xs)
      = map_option (\<lambda>r. r\<lparr>status := st, errorMessage := orNull msg, updatedAt := now\<rparr>)
          (find (\<lambda>r. id_job r = jid) xs)" for xs
    by (induction xs) simp_all
  with True show ?thesis by (simp add: jobRow_def updateJobStatus_def)
next
  case False
  have "find (\<lambda>r. id_job r = k) (map (\<lambda>j. if id_job j = jid
          then j\<lparr>status := st, errorMessage := orNull msg, updatedAt := now\<rparr> else j) xs)
      = find (\<lambda>r. id_job r = k) xs" for xs
    using False by (induction xs) auto
  with False show ?thesis by (simp add: jobRow_def updateJobStatus_def)
qed

lemma jobRow_incrementJobRetry:
  "jobRow (incrementJobRetry db jid now) k =
     (if k = jid
      then map_option (\<lambda>r. r\<lparr>retryCount := retryCount r + 1, updatedAt := now\<rparr>) (jobRow db k)
      else jobRow db k)"
proof (cases "k = jid")
  case True
  have "find (\<lambda>r. id_job r = jid) (map (\<lambda>j. if id_job j = jid
          then j\<lparr>retryCount := retryCount j + 1, updatedAt := now\<rparr> else j) xs)
      = map_option (\<lambda>r. r\<lparr>retryCount := retryCount r + 1, updatedAt := now\<rparr>)
          (find (\<lambda>r. id_job r = jid) xs)" for xs
    by (induction xs) simp_all
  with True show ?thesis by (simp add: jobRow_def incrementJobRetry_def)
next
  case False
  have "find (\<lambda>r. id_job r = k) (map (\<lambda>j. if id_job j = jid
          then j\<lparr>retryCount := retryCount j + 1, updatedAt := now\<rparr> else j) xs)
      = find (\<lambda>r. id_job r = k) xs" for xs
    using False by (induction xs) auto
  with False show ?thesis by (simp add: jobRow_def incrementJobRetry_def)
qed

lemma jobIds_updateJobStatus [simp]: "jobIds (updateJobStatus db jid st msg now) = jobIds db"
  by (simp add: jobIds_def updateJobStatus_def comp_def cong: map_cong)

lemma jobIds_incrementJobRetry [simp]: "jobIds (incrementJobRetry db jid now) = jobIds db"
  by (simp add: jobIds_def incrementJobRetry_def comp_def cong: map_cong)

lemma urls_updateJobStatus [simp]:
  "map url_job (jobs (updateJobStatus db jid st msg now)) = map url_job (jobs db)"
  by (simp add: updateJobStatus_def comp_def cong: map_cong)

lemma urls_incrementJobRetry [simp]:
  "map url_job (jobs (incrementJobRetry db jid now)) = map url_job (jobs db)"
  by (simp add: incrementJobRetry_def comp_def cong: map_cong)

lemma captures_updateJobStatus [simp]: "captures (updateJobStatus db jid st msg now) = captures db"
  by (simp add: updateJobStatus_def)

lemma captures_incrementJobRetry [simp]: "captures (incrementJobRetry db jid now) = captures db"
  by (simp add: incrementJobRetry_def)

lemma jobRow_Some_mem: "jobRow db k = Some r \<Longrightarrow> r \<in> set (jobs db) \<and> id_job r = k"
  by (auto simp: jobRow_def find_Some_iff)

lemma jobRow_distinct:
  assumes "distinct (jobIds db)" "r \<in> set (jobs db)"
  shows "jobRow db (id_job r) = Some r"
proof -
  have "distinct (map id_job xs) \<Longrightarrow> r \<in> set xs \<Longrightarrow> find (\<lambda>x. id_job x = id_job r) xs = Some r" for xs
    by (induction xs) (auto simp: image_iff)
  with assms show ?thesis by (simp add: jobRow_def jobIds_def)
qed

lemma find_append_Some: "find P xs = Some r \<Longrightarrow> find P (xs @ ys) = Some r"
  by (induction xs) (auto split: if_splits)

lemma jobRow_addJob_old: "jobRow db k = Some r \<Longrightarrow> jobRow (addJob db job) k = Some r"
  by (auto simp: jobRow_def addJob_def find_append_Some)

lemma distinct_addJob: "distinct (jobIds db) \<Longrightarrow> distinct (jobIds (addJob db job))"
  by (auto simp: addJob_def jobIds_def list_ex_iff)

section \<open>What the handler leaves unchanged: proofs\<close>

lemma grows_refl: "grows s s"
  by (simp add: grows_def)

lemma grows_trans: "grows s s' \<Longrightarrow> grows s' s'' \<Longrightarrow> grows s s''"
  by (simp add: grows_def)

lemma grows_same_db: "database s' = database s \<Longrightarrow> queue s' = queue s \<Longrightarrow> grows s s'"
  by (simp add: grows_def)

lemma urls_addJob: "map url_job (jobs (addJob db job)) = map url_job (jobs db) \<or>
   map url_job (jobs (addJob db job)) = map url_job (jobs db) @ [url_job job]"
  by (auto simp: addJob_def)

lemma addUrl_existing:
  "list_ex (\<lambda>j. url_job j = url) (jobs (database s)) \<Longrightarrow> addUrl w s url depth parent prio = (None, s)"
  by (simp add: addUrl_def urlExists_def)

lemma addUrl_distinct_urls:
  assumes "distinct (map url_job (jobs (database s)))"
  shows "distinct (map url_job (jobs (database (snd (addUrl w s url depth parent prio)))))"
proof (cases "urlExists (database s) url")
  case True
  then show ?thesis using assms by (simp add: addUrl_def)
next
  case False
  then have new: "url \<notin> set (map url_job (jobs (database s)))"
    by (auto simp: urlExists_def list_ex_iff)
  let ?job = "\<lparr>id_job = randomUUID w (tick s), url_job = url, depth_job = depth,
                    parentUrl = parent, priority = prio, status = Pending, retryCount = 0,
                    errorMessage = None, createdAt = newDate w (tick s + 1),
                    updatedAt = newDate w (tick s + 2)\<rparr>"
  have db: "database (snd (addUrl w s url depth parent prio)) = addJob (database s) ?job"
    using False by (simp add: addUrl_def Let_def)
  from urls_addJob [of "database s" ?job] new assms show ?thesis
    unfolding db by auto
qed

lemma addUrl_grows: "grows s (snd (addUrl w s url depth parent prio))"
proof -
  have q: "queue (snd (addUrl w s url depth parent prio)) = queue s"
    by (simp add: addUrl_def Let_def)
  have r: "jobRow (database s) k = Some r \<Longrightarrow>
        jobRow (database (snd (addUrl w s url depth parent prio))) k = Some r" for k r
    by (simp add: addUrl_def Let_def jobRow_addJob_old)
  have d: "distinct (jobIds (database s)) \<Longrightarrow>
        distinct (jobIds (database (snd (addUrl w s url depth parent prio))))"
    by (simp add: addUrl_def Let_def distinct_addJob)
  show ?thesis unfolding grows_def using q r d addUrl_distinct_urls by blast
qed

lemma bumpDiscovered_grows: "grows s (bumpDiscovered s)"
  by (simp add: grows_def bumpDiscovered_def)

lemma enqueueLinks_grows: "grows s (enqueueLinks w s job ls)"
proof (induction ls arbitrary: s)
  case Nil
  show ?case by (simp add: grows_refl)
next
  case (Cons link ls)
  obtain j s1 where a: "addUrl w s link (depth_job job + 1) (Some (url_job job)) Normal = (j, s1)"
    by (cases "addUrl w s link (depth_job job + 1) (Some (url_job job)) Normal")
  have g1: "grows s s1" using addUrl_grows [of s w link "depth_job job + 1" "Some (url_job job)" Normal] a
    by simp
  show ?case
  proof (cases j)
    case None
    with a g1 Cons.IH [of s1] show ?thesis by (auto intro: grows_trans)
  next
    case (Some nj)
    have "grows s (bumpDiscovered s1)" using g1 bumpDiscovered_grows grows_trans by blast
    with Some a Cons.IH [of "bumpDiscovered s1"] show ?thesis by (auto intro: grows_trans)
  qed
qed

lemma addSeeds_grows: "grows s (addSeeds w s urls)"
proof (induction urls arbitrary: s)
  case Nil
  show ?case by (simp add: grows_refl)
next
  case (Cons url urls)
  obtain j s1 where a: "addUrl w s url 0 None High = (j, s1)"
    by (cases "addUrl w s url 0 None High")
  have g1: "grows s s1" using addUrl_grows [of s w url 0 None High] a by simp
  show ?case
  proof (cases j)
    case None
    with a g1 Cons.IH [of s1] show ?thesis by (auto intro: grows_trans)
  next
    case (Some nj)
    have "grows s (bumpDiscovered s1)" using g1 bumpDiscovered_grows grows_trans by blast
    with Some a Cons.IH [of "bumpDiscovered s1"] show ?thesis by (auto intro: grows_trans)
  qed
qed

lemma crawlUrl_frame:
  "database (snd (crawlUrl w env s url depth)) = database s \<and>
   queue (snd (crawlUrl w env s url depth)) = queue s \<and>
   isProcessing (snd (crawlUrl w env s url depth)) = isProcessing s \<and>
   stats (snd (crawlUrl w env s url depth)) = stats s \<and>
   urlsCrawled_crawl (snd (crawlUrl w env s url depth)) = urlsCrawled_crawl s \<and>
   browserContext (snd (crawlUrl w env s url depth)) = browserContext s"
  by (simp add: crawlUrl_def Let_def split: prod.splits sum.splits PageOutcome.splits)

lemma saveCapture_jobs [simp]: "jobs (saveCapture db c) = jobs db"
  by (simp add: saveCapture_def)

lemma jobRow_saveCapture [simp]: "jobRow (saveCapture db c) k = jobRow db k"
  by (simp add: jobRow_def)

lemma jobIds_saveCapture [simp]: "jobIds (saveCapture db c) = jobIds db"
  by (simp add: jobIds_def)

lemma recordCapture_grows: "grows s (recordCapture s c)"
  by (simp add: grows_def recordCapture_def)

lemma captionCapture_grows: "grows s (captionCapture w env s)"
  by (simp add: grows_def captionCapture_def)

lemma followLinks_grows: "grows s (followLinks w s job c)"
  by (simp add: followLinks_def enqueueLinks_grows grows_refl)

lemma crawlUrl_grows: "grows s (snd (crawlUrl w env s url depth))"
  using crawlUrl_frame [of w env s url depth] by (simp add: grows_same_db)

lemma handler_grows: "grows s (snd (handler w env s job))"
proof (cases "maxUrlsReached w s")
  case True
  then show ?thesis by (simp add: handler_def stop_def grows_def)
next
  case False
  obtain res s1 where c: "crawlUrl w env s (url_job job) (depth_job job) = (res, s1)"
    by (cases "crawlUrl w env s (url_job job) (depth_job job)")
  have g1: "grows s s1" using crawlUrl_grows [of s w env "url_job job" "depth_job job"] c by simp
  show ?thesis
  proof (cases res)
    case (Inl e)
    have "grows s1 (countFailed s1)" by (simp add: grows_def countFailed_def)
    with Inl False c g1 show ?thesis by (auto simp: handler_def intro: grows_trans)
  next
    case (Inr cap)
    show ?thesis
    proof (cases cap)
      case None
      have "grows s1 (countSkipped s1)" by (simp add: grows_def countSkipped_def)
      with None Inr False c g1 show ?thesis by (auto simp: handler_def intro: grows_trans)
    next
      case (Some capture)
      have g2: "grows s (recordCapture s1 capture)"
        using g1 recordCapture_grows by (rule grows_trans)
      have g3: "grows s (captionCapture w env (recordCapture s1 capture))"
        using g2 captionCapture_grows by (rule grows_trans)
      have "grows s (followLinks w (captionCapture w env (recordCapture s1 capture)) job capture)"
        using g3 followLinks_grows by (rule grows_trans)
      with Some Inr False c show ?thesis by (simp add: handler_def)
    qed
  qed
qed

lemma handler_fail_frame:
  assumes "handler w env s job = (Inl e, s1)"
  shows "database s1 = database s \<and> queue s1 = queue s \<and> isProcessing s1 = isProcessing s"
proof -
  obtain res s0 where c: "crawlUrl w env s (url_job job) (depth_job job) = (res, s0)"
    by (cases "crawlUrl w env s (url_job job) (depth_job job)")
  have f: "database s0 = database s" "queue s0 = queue s" "isProcessing s0 = isProcessing s"
    using crawlUrl_frame [of w env s "url_job job" "depth_job job"] c by simp_all
  from assms c f show ?thesis
    by (auto simp: handler_def countFailed_def split: if_splits sum.splits option.splits)
qed

lemma handler_blocked:
  assumes "\<not> maxUrlsReached w s"
    and "crawlUrl w env s (url_job job) (depth_job job) = (Inr None, s1)"
  shows "handler w env s job = (Inr (), countSkipped s1)"
  using assms by (simp add: handler_def)

lemma handler_deep:
  assumes "depth_job job \<ge> maxDepth (config w)"
  shows "jobs (database (snd (handler w env s job))) = jobs (database s) \<and>
         urlsDiscovered (stats (snd (handler w env s job))) = urlsDiscovered (stats s)"
proof -
  obtain res s0 where c: "crawlUrl w env s (url_job job) (depth_job job) = (res, s0)"
    by (cases "crawlUrl w env s (url_job job) (depth_job job)")
  have f: "database s0 = database s" "stats s0 = stats s"
    using crawlUrl_frame [of w env s "url_job job" "depth_job job"] c by simp_all
  from assms c f show ?thesis
    by (auto simp: handler_def stop_def countFailed_def countSkipped_def followLinks_def
        captionCapture_def recordCapture_def split: if_splits sum.splits option.splits)
qed

section \<open>The pool and the job table: proofs\<close>

lemma consistent_iff:
  "consistent s \<longleftrightarrow>
     distinct (jobIds (database s)) \<and> distinct (map id_job (queue s)) \<and>
     (\<forall>t \<in> set (queue s). \<exists>r. jobRow (database s) (id_job t) = Some r \<and> status r = Crawling \<and>
        retryCount r = retryCount t)"
  by (auto simp: consistent_def list_all_iff split: option.splits)

lemma dispatch_frame:
  "jobIds (database (foldl (dispatchJob w) s js)) = jobIds (database s) \<and>
   isProcessing (foldl (dispatchJob w) s js) = isProcessing s \<and>
   map url_job (jobs (database (foldl (dispatchJob w) s js))) = map url_job (jobs (database s)) \<and>
   captures (database (foldl (dispatchJob w) s js)) = captures (database s) \<and>
   stats (foldl (dispatchJob w) s js) = stats s"
  by (induction js arbitrary: s) (simp_all add: dispatchJob_def)

lemma dispatch_other:
  "k \<notin> id_job ` set js \<Longrightarrow>
   jobRow (database (foldl (dispatchJob w) s js)) k = jobRow (database s) k"
  by (induction js arbitrary: s) (simp_all add: dispatchJob_def jobRow_updateJobStatus)

lemma dispatch_row:
  "k \<in> id_job ` set js \<Longrightarrow> jobRow (database s) k = Some r \<Longrightarrow>
   \<exists>now. jobRow (database (foldl (dispatchJob w) s js)) k
      = Some (r\<lparr>status := Crawling, errorMessage := None, updatedAt := now\<rparr>)"
proof (induction js arbitrary: s r)
  case Nil
  then show ?case by simp
next
  case (Cons j js)
  let ?s1 = "dispatchJob w s j"
  show ?case
  proof (cases "k = id_job j")
    case True
    let ?r1 = "r\<lparr>status := Crawling, errorMessage := None, updatedAt := newDate w (tick s)\<rparr>"
    have r1: "jobRow (database ?s1) k = Some ?r1"
      using True Cons.prems(2) by (simp add: dispatchJob_def jobRow_updateJobStatus orNull_def)
    show ?thesis
    proof (cases "k \<in> id_job ` set js")
      case True
      from Cons.IH [OF True r1] show ?thesis by simp
    next
      case False
      then have "jobRow (database (foldl (dispatchJob w) ?s1 js)) k = Some ?r1"
        using r1 by (simp add: dispatch_other)
      then show ?thesis by auto
    qed
  next
    case False
    then have in_rest: "k \<in> id_job ` set js" using Cons.prems(1) by auto
    have "jobRow (database ?s1) k = Some r"
      using False Cons.prems(2) by (simp add: dispatchJob_def jobRow_updateJobStatus)
    from Cons.IH [OF in_rest this] show ?thesis by simp
  qed
qed

lemma batch_distinct:
  assumes "distinct (jobIds db)"
  shows "distinct (map id_job (getPendingJobs db limit))"
proof -
  from assms have d: "distinct (jobs db)" and i: "inj_on id_job (set (jobs db))"
    by (simp_all add: jobIds_def distinct_map)
  have sub: "set (getPendingJobs db limit) \<subseteq> set (jobs db)"
    using getPendingJobs_set by blast
  have "distinct (getPendingJobs db limit)"
    using d by (simp add: getPendingJobs_def)
  moreover have "inj_on id_job (set (getPendingJobs db limit))"
    using i sub by (rule inj_on_subset)
  ultimately show ?thesis by (simp add: distinct_map)
qed

lemma batch_rows:
  assumes "distinct (jobIds db)" "t \<in> set (getPendingJobs db limit)"
  shows "jobRow db (id_job t) = Some t \<and> status t = Pending"
  using assms getPendingJobs_set jobRow_distinct by blast

lemma consistent_poll:
  assumes "consistent s"
  shows "consistent (poll w s)"
proof (cases "isProcessing s")
  case False
  then show ?thesis using assms by (simp add: poll_def)
next
  case True
  let ?b = "getPendingJobs (database s) 10"
  let ?s' = "foldl (dispatchJob w) s ?b"
  from assms have di: "distinct (jobIds (database s))" and dq: "distinct (map id_job (queue s))"
    and rows: "\<And>t. t \<in> set (queue s) \<Longrightarrow> \<exists>r. jobRow (database s) (id_job t) = Some r \<and>
        status r = Crawling \<and> retryCount r = retryCount t"
    by (simp_all add: consistent_iff)
  have p: "poll w s = ?s'" using True by (simp add: poll_def)
  have q: "queue ?s' = queue s @ ?b" by (rule queue_dispatch)
  have disj: "id_job ` set (queue s) \<inter> id_job ` set ?b = {}"
  proof (rule ccontr)
    assume "id_job ` set (queue s) \<inter> id_job ` set ?b \<noteq> {}"
    then obtain t b where t: "t \<in> set (queue s)" and b: "b \<in> set ?b" and e: "id_job t = id_job b"
      by auto
    from rows [OF t] obtain r where "jobRow (database s) (id_job t) = Some r" "status r = Crawling"
      by blast
    moreover from batch_rows [OF di b] have "jobRow (database s) (id_job b) = Some b" "status b = Pending"
      by simp_all
    ultimately show False using e by simp
  qed
  have d1: "distinct (jobIds (database ?s'))" using di dispatch_frame [of w s ?b] by simp
  have d2: "distinct (map id_job (queue ?s'))"
    unfolding q using dq batch_distinct [OF di] disj by simp
  have d3: "\<exists>r. jobRow (database ?s') (id_job t) = Some r \<and> status r = Crawling \<and>
        retryCount r = retryCount t" if "t \<in> set (queue ?s')" for t
  proof (cases "t \<in> set ?b")
    case True
    from batch_rows [OF di True] have "jobRow (database s) (id_job t) = Some t" by simp
    with dispatch_row [of "id_job t" ?b s t w] True show ?thesis by auto
  next
    case False
    with that q have t: "t \<in> set (queue s)" by simp
    then have "id_job t \<notin> id_job ` set ?b" using disj by blast
    then have "jobRow (database ?s') (id_job t) = jobRow (database s) (id_job t)"
      by (rule dispatch_other)
    with rows [OF t] show ?thesis by simp
  qed
  show ?thesis unfolding p consistent_iff using d1 d2 d3 by blast
qed

lemma runTask_success:
  "handler w env s job = (Inr u, s1) \<Longrightarrow>
   runTask w env s job =
     s1\<lparr>database := updateJobStatus (database s1) (id_job job) Completed None (newDate w (tick s1)),
        tick := tick s1 + 1\<rparr>"
  by (simp add: runTask_def)

lemma runTask_failure:
  "handler w env s job = (Inl msg, s1) \<Longrightarrow>
   runTask w env s job =
     s1\<lparr>database := updateJobStatus (incrementJobRetry (database s1) (id_job job) (newDate w (tick s1)))
                        (id_job job) (if retryCount job < maxRetries w then Pending else Failed)
                        (Some msg) (newDate w (tick s1 + 1)),
        tick := tick s1 + 2\<rparr>"
  by (simp add: runTask_def Let_def)

lemma runTask_queue: "queue (runTask w env s job) = queue s"
proof -
  obtain res s1 where h: "handler w env s job = (res, s1)" by (cases "handler w env s job")
  have "queue s1 = queue s" using handler_grows [of s w env job] h by (simp add: grows_def)
  with h show ?thesis by (cases res) (simp_all add: runTask_def Let_def)
qed

lemma runTask_jobIds:
  "distinct (jobIds (database s)) \<Longrightarrow> distinct (jobIds (database (runTask w env s job)))"
proof -
  assume d: "distinct (jobIds (database s))"
  obtain res s1 where h: "handler w env s job = (res, s1)" by (cases "handler w env s job")
  have "distinct (jobIds (database s1))" using handler_grows [of s w env job] h d by (simp add: grows_def)
  with h show ?thesis by (cases res) (simp_all add: runTask_def Let_def)
qed

lemma runTask_urls:
  "distinct (map url_job (jobs (database s))) \<Longrightarrow>
   distinct (map url_job (jobs (database (runTask w env s job))))"
proof -
  assume d: "distinct (map url_job (jobs (database s)))"
  obtain res s1 where h: "handler w env s job = (res, s1)" by (cases "handler w env s job")
  have "distinct (map url_job (jobs (database s1)))"
    using handler_grows [of s w env job] h d by (simp add: grows_def)
  with h show ?thesis by (cases res) (simp_all add: runTask_def Let_def)
qed

lemma runTask_other:
  assumes "jobRow (database s) k = Some r" "k \<noteq> id_job job"
  shows "jobRow (database (runTask w env s job)) k = Some r"
proof -
  obtain res s1 where h: "handler w env s job = (res, s1)" by (cases "handler w env s job")
  have "jobRow (database s1) k = Some r"
    using handler_grows [of s w env job] h assms(1) by (simp add: grows_def)
  with h assms(2) show ?thesis
    by (cases res)
       (simp_all add: runTask_def Let_def jobRow_updateJobStatus jobRow_incrementJobRetry)
qed

lemma runTask_row_failure:
  assumes "jobRow (database s) (id_job job) = Some r" "handler w env s job = (Inl msg, s1)"
  shows "jobRow (database (runTask w env s job)) (id_job job) =
     Some (r\<lparr>retryCount := retryCount r + 1,
              status := (if retryCount job < maxRetries w then Pending else Failed),
              errorMessage := orNull (Some msg),
              updatedAt := newDate w (tick s1 + 1)\<rparr>)"
proof -
  have "database s1 = database s" using handler_fail_frame [OF assms(2)] by simp
  then show ?thesis
    using assms by (simp add: runTask_failure jobRow_updateJobStatus jobRow_incrementJobRetry)
qed

lemma runTask_row_success:
  assumes "jobRow (database s) (id_job job) = Some r" "handler w env s job = (Inr u, s1)"
  shows "jobRow (database (runTask w env s job)) (id_job job) =
     Some (r\<lparr>status := Completed, errorMessage := None, updatedAt := newDate w (tick s1)\<rparr>)"
proof -
  have "jobRow (database s1) (id_job job) = Some r"
    using handler_grows [of s w env job] assms by (simp add: grows_def)
  then show ?thesis
    using assms by (simp add: runTask_success jobRow_updateJobStatus orNull_def)
qed

lemma popTask_queue:
  assumes "i < length (queue s)" "distinct (map id_job (queue s))"
  shows "set (queue (popTask s i)) \<subseteq> set (queue s) \<and>
         distinct (map id_job (queue (popTask s i))) \<and>
         id_job (queue s ! i) \<notin> id_job ` set (queue (popTask s i))"
proof -
  let ?q = "queue s"
  have split: "?q = take i ?q @ (?q ! i) # drop (Suc i) ?q"
    using assms(1) by (simp add: id_take_nth_drop)
  have "distinct (map id_job (take i ?q @ (?q ! i) # drop (Suc i) ?q))"
    using assms(2) split by simp
  then have d: "distinct (map id_job (take i ?q) @ id_job (?q ! i) # map id_job (drop (Suc i) ?q))"
    by simp
  have s1: "set (take i ?q @ drop (Suc i) ?q) \<subseteq> set ?q"
    using set_take_subset set_drop_subset by (metis Un_least set_append)
  from d have "distinct (map id_job (take i ?q) @ map id_job (drop (Suc i) ?q))"
    and "id_job (?q ! i) \<notin> set (map id_job (take i ?q)) \<union> set (map id_job (drop (Suc i) ?q))"
    by auto
  with s1 show ?thesis by (simp add: popTask_def image_Un)
qed

lemma consistent_task:
  assumes "consistent s"
  shows "consistent (step w s (Task i env))"
proof (cases "i < length (queue s)")
  case False
  then show ?thesis using assms by simp
next
  case True
  let ?job = "queue s ! i"
  let ?s0 = "popTask s i"
  let ?s' = "runTask w env ?s0 ?job"
  from assms have di: "distinct (jobIds (database s))" and dq: "distinct (map id_job (queue s))"
    and rows: "\<And>t. t \<in> set (queue s) \<Longrightarrow> \<exists>r. jobRow (database s) (id_job t) = Some r \<and>
        status r = Crawling \<and> retryCount r = retryCount t"
    by (simp_all add: consistent_iff)
  have st: "step w s (Task i env) = ?s'" using True by simp
  from popTask_queue [OF True dq] have sub: "set (queue ?s0) \<subseteq> set (queue s)"
    and dq0: "distinct (map id_job (queue ?s0))"
    and notin: "id_job ?job \<notin> id_job ` set (queue ?s0)" by simp_all
  have db0: "database ?s0 = database s" by (simp add: popTask_def)
  have q': "queue ?s' = queue ?s0" by (rule runTask_queue)
  have d1: "distinct (jobIds (database ?s'))" using di db0 runTask_jobIds [of ?s0 w env ?job] by simp
  have d3: "\<exists>r. jobRow (database ?s') (id_job t) = Some r \<and> status r = Crawling \<and>
        retryCount r = retryCount t" if "t \<in> set (queue ?s')" for t
  proof -
    from that q' have t0: "t \<in> set (queue ?s0)" by simp
    with sub have t: "t \<in> set (queue s)" by blast
    from rows [OF t] obtain r where r: "jobRow (database ?s0) (id_job t) = Some r"
      "status r = Crawling" "retryCount r = retryCount t" using db0 by auto
    have "id_job t \<noteq> id_job ?job" using t0 notin by (metis imageI)
    from runTask_other [OF r(1) this] r show ?thesis by blast
  qed
  show ?thesis unfolding st consistent_iff using d1 dq0 q' d3 by simp
qed

lemma consistent_step: "consistent s \<Longrightarrow> consistent (step w s e)"
  by (cases e) (simp_all add: consistent_poll consistent_task del: step.simps(2))

lemma consistent_run: "consistent s \<Longrightarrow> consistent (run w s events)"
  unfolding run_def by (induction events arbitrary: s) (simp_all add: consistent_step del: step.simps)

lemma settled_step:
  assumes "consistent s" "settled s k r"
  shows "settled (step w s e) k r"
proof (cases e)
  case Poll
  show ?thesis
  proof (cases "isProcessing s")
    case False
    with Poll assms(2) show ?thesis by (simp add: poll_def)
  next
    case True
    let ?b = "getPendingJobs (database s) 10"
    from assms(1) have di: "distinct (jobIds (database s))" by (simp add: consistent_iff)
    from assms(2) have row: "jobRow (database s) k = Some r" and np: "status r \<noteq> Pending"
      and nq: "k \<notin> id_job ` set (queue s)" by (simp_all add: settled_def)
    have nb: "k \<notin> id_job ` set ?b"
    proof
      assume "k \<in> id_job ` set ?b"
      then obtain b where b: "b \<in> set ?b" "id_job b = k" by auto
      from batch_rows [OF di b(1)] b(2) row np show False by simp
    qed
    have "jobRow (database (foldl (dispatchJob w) s ?b)) k = Some r"
      using dispatch_other [OF nb] row by simp
    moreover have "queue (foldl (dispatchJob w) s ?b) = queue s @ ?b" by (rule queue_dispatch)
    ultimately show ?thesis using Poll True np nq nb by (simp add: poll_def settled_def image_Un)
  qed
next
  case (Task i env)
  show ?thesis
  proof (cases "i < length (queue s)")
    case False
    with Task assms(2) show ?thesis by simp
  next
    case True
    let ?job = "queue s ! i"
    let ?s0 = "popTask s i"
    from assms(1) have dq: "distinct (map id_job (queue s))" by (simp add: consistent_iff)
    from assms(2) have row: "jobRow (database s) k = Some r" and np: "status r \<noteq> Pending"
      and nq: "k \<notin> id_job ` set (queue s)" by (simp_all add: settled_def)
    have "?job \<in> set (queue s)" using True by simp
    then have ne: "k \<noteq> id_job ?job" using nq by auto
    have row0: "jobRow (database ?s0) k = Some r" using row by (simp add: popTask_def)
    have sub: "set (queue ?s0) \<subseteq> set (queue s)" using popTask_queue [OF True dq] by simp
    have "jobRow (database (runTask w env ?s0 ?job)) k = Some r"
      using runTask_other [OF row0 ne] .
    moreover have "k \<notin> id_job ` set (queue (runTask w env ?s0 ?job))"
      using nq sub by (auto simp: runTask_queue)
    ultimately show ?thesis using Task True np by (simp add: settled_def)
  qed
qed

lemma settled_run:
  "consistent s \<Longrightarrow> settled s k r \<Longrightarrow> settled (run w s events) k r"
  unfolding run_def
proof (induction events arbitrary: s)
  case Nil
  then show ?case by simp
next
  case (Cons e es)
  have "consistent (step w s e)" using Cons.prems(1) by (rule consistent_step)
  moreover have "settled (step w s e) k r" using Cons.prems by (rule settled_step)
  ultimately show ?case using Cons.IH by simp
qed

section \<open>Retry policy: proofs\<close>

lemma task_failure_step:
  assumes "consistent s" "i < length (queue s)"
    and "handler w env (popTask s i) (queue s ! i) = (Inl msg, s1)"
  shows "\<exists>r. jobRow (database s) (id_job (queue s ! i)) = Some r \<and> status r = Crawling \<and>
           retryCount r = retryCount (queue s ! i) \<and>
           jobRow (database (step w s (Task i env))) (id_job (queue s ! i)) =
             Some (r\<lparr>retryCount := retryCount r + 1,
                      status := (if retryCount r < maxRetries w then Pending else Failed),
                      errorMessage := orNull (Some msg),
                      updatedAt := newDate w (tick s1 + 1)\<rparr>)"
proof -
  let ?job = "queue s ! i"
  have "?job \<in> set (queue s)" using assms(2) by simp
  with assms(1) obtain r where r: "jobRow (database s) (id_job ?job) = Some r" "status r = Crawling"
    "retryCount r = retryCount ?job" unfolding consistent_iff by blast
  have r0: "jobRow (database (popTask s i)) (id_job ?job) = Some r" using r(1) by (simp add: popTask_def)
  from runTask_row_failure [OF r0 assms(3)] r assms(2) show ?thesis by simp
qed

lemma only_filter:
  assumes "distinct (map id_job xs)" "find (\<lambda>x. id_job x = k) xs = Some r" "P r"
    and "list_all (\<lambda>x. P x \<longrightarrow> id_job x = k) xs"
  shows "filter P xs = [r]"
  using assms
proof (induction xs)
  case Nil
  then show ?case by simp
next
  case (Cons x xs)
  show ?case
  proof (cases "id_job x = k")
    case True
    with Cons.prems have xr: "x = r" by simp
    have "k \<notin> id_job ` set xs" using Cons.prems(1) True by auto
    moreover have "\<forall>y \<in> set xs. P y \<longrightarrow> id_job y = k" using Cons.prems(4) by (simp add: list_all_iff)
    ultimately have "filter P xs = []" by (auto simp: filter_empty_conv)
    with xr Cons.prems(3) show ?thesis by simp
  next
    case False
    with Cons.prems have "\<not> P x" by simp
    moreover have "filter P xs = [r]" using Cons.IH Cons.prems False by simp
    ultimately show ?thesis by simp
  qed
qed

lemma pending_updateJobStatus:
  assumes "list_all (\<lambda>x. status x = Pending \<longrightarrow> id_job x = k) (jobs db)"
  shows "list_all (\<lambda>x. status x = Pending \<longrightarrow> id_job x = k) (jobs (updateJobStatus db k st msg now))"
  using assms by (auto simp: updateJobStatus_def list_all_iff)

lemma pending_incrementJobRetry:
  assumes "list_all (\<lambda>x. status x = Pending \<longrightarrow> id_job x = k) (jobs db)"
  shows "list_all (\<lambda>x. status x = Pending \<longrightarrow> id_job x = k) (jobs (incrementJobRetry db k now))"
  using assms by (auto simp: incrementJobRetry_def list_all_iff)

lemma task_failure_fields:
  assumes "consistent s" "i < length (queue s)"
    and "fst (handler w env (popTask s i) (queue s ! i)) = Inl msg"
  shows "\<exists>r r'. jobRow (database s) (id_job (queue s ! i)) = Some r \<and> status r = Crawling \<and>
           retryCount r = retryCount (queue s ! i) \<and>
           jobRow (database (step w s (Task i env))) (id_job (queue s ! i)) = Some r' \<and>
           retryCount r' = retryCount r + 1 \<and>
           status r' = (if retryCount r < maxRetries w then Pending else Failed) \<and>
           errorMessage r' = (if msg = [] then None else Some msg)"
proof -
  obtain s1 where h: "handler w env (popTask s i) (queue s ! i) = (Inl msg, s1)"
    using assms(3) by (cases "handler w env (popTask s i) (queue s ! i)") simp
  from task_failure_step [OF assms(1,2) h] obtain r where r:
    "jobRow (database s) (id_job (queue s ! i)) = Some r" "status r = Crawling"
    "retryCount r = retryCount (queue s ! i)"
    "jobRow (database (step w s (Task i env))) (id_job (queue s ! i)) =
             Some (r\<lparr>retryCount := retryCount r + 1,
                      status := (if retryCount r < maxRetries w then Pending else Failed),
                      errorMessage := orNull (Some msg),
                      updatedAt := newDate w (tick s1 + 1)\<rparr>)" by blast
  show ?thesis
    by (rule exI [of _ r], rule exI, intro conjI, rule r(1), rule r(2), rule r(3), rule r(4))
       (simp_all add: orNull_def)
qed

lemma batch_dispatched:
  assumes "consistent s" "isProcessing s" "jobRow (database s) k = Some r"
    and "k \<in> id_job ` set (getPendingJobs (database s) 10)"
  shows "status r = Pending \<and> k \<in> id_job ` set (queue (step w s Poll)) \<and>
         (\<exists>r'. jobRow (database (step w s Poll)) k = Some r' \<and> status r' = Crawling \<and>
               retryCount r' = retryCount r)"
proof -
  let ?b = "getPendingJobs (database s) 10"
  from assms(1) have di: "distinct (jobIds (database s))" by (simp add: consistent_iff)
  from assms(4) obtain t where t: "t \<in> set ?b" "id_job t = k" by auto
  from batch_rows [OF di t(1)] t(2) assms(3) have p: "status r = Pending" by simp
  have q: "queue (step w s Poll) = queue s @ ?b" using assms(2) by (simp add: poll_def queue_dispatch)
  from dispatch_row [OF assms(4,3)] obtain now where
    "jobRow (database (foldl (dispatchJob w) s ?b)) k
       = Some (r\<lparr>status := Crawling, errorMessage := None, updatedAt := now\<rparr>)" by blast
  then have "jobRow (database (step w s Poll)) k
       = Some (r\<lparr>status := Crawling, errorMessage := None, updatedAt := now\<rparr>)"
    using assms(2) by (simp add: poll_def)
  then have "\<exists>r'. jobRow (database (step w s Poll)) k = Some r' \<and> status r' = Crawling \<and>
               retryCount r' = retryCount r" by simp
  moreover have "k \<in> id_job ` set (queue (step w s Poll))" unfolding q using assms(4) by auto
  ultimately show ?thesis using p by blast
qed

lemma throwsAt_runsJob: "throwsAt w s e k \<Longrightarrow> runsJob s e k"
  by (cases e) (simp_all add: throwsAt_def runsJob_def)

lemma failing_round:
  assumes "onlyPending s k n"
    and "runsJob (step w s Poll) (Task 0 env) k \<longrightarrow> throwsAt w (step w s Poll) (Task 0 env) k"
  shows "(\<exists>r. jobRow (database (step w s Poll)) k = Some r \<and> status r = Crawling \<and> retryCount r = n) \<and>
         (n < maxRetries w \<longrightarrow> onlyPending (run w s [Poll, Task 0 env]) k (Suc n)) \<and>
         (\<not> n < maxRetries w \<longrightarrow>
            consistent (run w s [Poll, Task 0 env]) \<and>
            (\<exists>r. jobRow (database (run w s [Poll, Task 0 env])) k = Some r \<and> status r = Failed \<and>
                 retryCount r = Suc n))"
proof -
  from assms(1) obtain r where c: "consistent s" and ip: "isProcessing s" and q: "queue s = []"
    and row: "jobRow (database s) k = Some r" and pr: "status r = Pending" and rc: "retryCount r = n"
    and others: "list_all (\<lambda>x. status x = Pending \<longrightarrow> id_job x = k) (jobs (database s))"
    by (auto simp: onlyPending_def split: option.splits)
  have idr: "id_job r = k" using row jobRow_Some_mem by blast
  from c have di: "distinct (map id_job (jobs (database s)))" by (simp add: consistent_iff jobIds_def)
  have "filter (\<lambda>x. status x = Pending) (jobs (database s)) = [r]"
    using di row pr others unfolding jobRow_def by (rule only_filter)
  then have batch: "getPendingJobs (database s) 10 = [r]" by (simp add: getPendingJobs_def)
  let ?s1 = "step w s Poll"
  have s1: "?s1 = dispatchJob w s r" using ip batch by (simp add: poll_def)
  let ?r1 = "r\<lparr>status := Crawling, errorMessage := None, updatedAt := newDate w (tick s)\<rparr>"
  have row1: "jobRow (database ?s1) k = Some ?r1"
    unfolding s1 using row idr by (simp add: dispatchJob_def jobRow_updateJobStatus orNull_def)
  have q1: "queue ?s1 = [r]" unfolding s1 using q by (simp add: dispatchJob_def)
  have ip1: "isProcessing ?s1" unfolding s1 using ip by (simp add: dispatchJob_def)
  have c1: "consistent ?s1" using c by (rule consistent_step)
  have oth1: "list_all (\<lambda>x. status x = Pending \<longrightarrow> id_job x = k) (jobs (database ?s1))"
    unfolding s1 using others idr by (simp add: dispatchJob_def pending_updateJobStatus)
  let ?s0 = "popTask ?s1 0"
  have "runsJob ?s1 (Task 0 env) k" using q1 idr by (simp add: runsJob_def)
  with assms(2) have "throwsAt w ?s1 (Task 0 env) k" by blast
  then have "isl (fst (handler w env ?s0 r))" using q1 by (simp add: throwsAt_def)
  then obtain msg sh where h: "handler w env ?s0 r = (Inl msg, sh)"
    by (cases "handler w env ?s0 r") (auto simp: isl_def)
  let ?s2 = "step w ?s1 (Task 0 env)"
  have s2: "?s2 = runTask w env ?s0 r" using q1 by simp
  have run2: "run w s [Poll, Task 0 env] = ?s2" by (simp add: run_def)
  have fr: "database sh = database ?s0" "queue sh = queue ?s0" "isProcessing sh = isProcessing ?s0"
    using handler_fail_frame [OF h] by simp_all
  have db0: "database ?s0 = database ?s1" "queue ?s0 = []" "isProcessing ?s0"
    using q1 ip1 by (simp_all add: popTask_def)
  have row0: "jobRow (database ?s0) (id_job r) = Some ?r1" using row1 idr db0 by simp
  let ?st = "if retryCount r < maxRetries w then Pending else Failed"
  have row2: "jobRow (database ?s2) k =
      Some (?r1\<lparr>retryCount := retryCount ?r1 + 1, status := ?st,
                 errorMessage := orNull (Some msg), updatedAt := newDate w (tick sh + 1)\<rparr>)"
    unfolding s2 using runTask_row_failure [OF row0 h] idr by simp
  have c2: "consistent ?s2" using c1 by (rule consistent_step)
  have q2: "queue ?s2 = []" unfolding s2 using db0 by (simp add: runTask_queue)
  have ip2: "isProcessing ?s2" unfolding s2 using h fr db0 by (simp add: runTask_failure)
  have oth2: "list_all (\<lambda>x. status x = Pending \<longrightarrow> id_job x = k) (jobs (database ?s2))"
    unfolding s2 using h fr db0 oth1 idr
    by (simp add: runTask_failure pending_updateJobStatus pending_incrementJobRetry)
  show ?thesis
    using row1 rc row2 c2 q2 ip2 oth2 unfolding run2 onlyPending_def by simp
qed

lemma run_append: "run w s (es @ fs) = run w (run w s es) fs"
  by (simp add: run_def)

lemma alwaysThrows_append:
  "alwaysThrows w s (es @ fs) k \<longleftrightarrow> alwaysThrows w s es k \<and> alwaysThrows w (run w s es) fs k"
  by (induction es arbitrary: s) (simp_all add: run_def)

lemma alwaysThrows_round:
  assumes "alwaysThrows w s (failingRounds (env # envs)) k"
  shows "(runsJob (step w s Poll) (Task 0 env) k \<longrightarrow> throwsAt w (step w s Poll) (Task 0 env) k) \<and>
         alwaysThrows w (run w s [Poll, Task 0 env]) (failingRounds envs) k"
  using assms by (simp add: failingRounds_def run_def split: if_splits)

lemma failing_rounds_pending:
  assumes "onlyPending s k n" "alwaysThrows w s (failingRounds envs) k" "n + length envs \<le> maxRetries w"
  shows "onlyPending (run w s (failingRounds envs)) k (n + length envs)"
  using assms
proof (induction envs arbitrary: s n)
  case Nil
  then show ?case by (simp add: failingRounds_def run_def)
next
  case (Cons env envs)
  have lt: "n < maxRetries w" using Cons.prems(3) by simp
  note a = alwaysThrows_round [OF Cons.prems(2)]
  from failing_round [OF Cons.prems(1) a [THEN conjunct1]] lt
  have o1: "onlyPending (run w s [Poll, Task 0 env]) k (Suc n)" by blast
  have "onlyPending (run w (run w s [Poll, Task 0 env]) (failingRounds envs)) k (Suc n + length envs)"
    using Cons.IH [OF o1 a [THEN conjunct2]] Cons.prems(3) by simp
  moreover have "run w s (failingRounds (env # envs))
      = run w (run w s [Poll, Task 0 env]) (failingRounds envs)"
    unfolding run_append [symmetric] by (simp add: failingRounds_def)
  ultimately show ?case by simp
qed

lemma failingRounds_snoc: "failingRounds (envs @ [env]) = failingRounds envs @ failingRounds [env]"
  by (simp add: failingRounds_def)

lemma failing_rounds_failed:
  assumes "onlyPending s k 0" "alwaysThrows w s (failingRounds envs) k"
    and "length envs = maxRetries w + 1"
  shows "\<exists>r. jobRow (database (run w s (failingRounds envs))) k = Some r \<and>
             status r = Failed \<and> retryCount r = maxRetries w + 1"
proof -
  from assms(3) have ne: "envs \<noteq> []" by auto
  let ?es = "butlast envs" and ?e = "last envs"
  have e: "envs = ?es @ [?e]" using ne by simp
  have fr: "failingRounds envs = failingRounds ?es @ failingRounds [?e]"
    using failingRounds_snoc [of ?es ?e] e by simp
  have len: "length ?es = maxRetries w" using assms(3) by simp
  from assms(2) have a1: "alwaysThrows w s (failingRounds ?es) k"
    and a2: "alwaysThrows w (run w s (failingRounds ?es)) (failingRounds [?e]) k"
    unfolding fr alwaysThrows_append by simp_all
  have o: "onlyPending (run w s (failingRounds ?es)) k (maxRetries w)"
    using failing_rounds_pending [OF assms(1) a1] len by simp
  note a = alwaysThrows_round [OF a2]
  from failing_round [OF o a [THEN conjunct1]]
  have "\<exists>r. jobRow (database (run w (run w s (failingRounds ?es)) [Poll, Task 0 ?e])) k = Some r \<and>
      status r = Failed \<and> retryCount r = Suc (maxRetries w)" by simp
  moreover have "run w s (failingRounds envs) = run w (run w s (failingRounds ?es)) [Poll, Task 0 ?e]"
    unfolding fr run_append by (simp add: failingRounds_def)
  ultimately show ?thesis by simp
qed

lemma failed_forever:
  assumes "consistent s" "jobRow (database s) k = Some r" "status r = Failed"
  shows "jobRow (database (run w s events)) k = Some r"
proof -
  have "k \<notin> id_job ` set (queue s)"
  proof
    assume "k \<in> id_job ` set (queue s)"
    then obtain t where "t \<in> set (queue s)" "id_job t = k" by auto
    with assms(1) obtain r' where "jobRow (database s) k = Some r'" "status r' = Crawling"
      unfolding consistent_iff by blast
    with assms(2,3) show False by simp
  qed
  then have "settled s k r" using assms(2,3) by (simp add: settled_def)
  from settled_run [OF assms(1) this] show ?thesis by (simp add: settled_def)
qed

lemma retryBound_step:
  assumes "consistent s" "retryBound w s k"
  shows "retryBound w (step w s e) k"
proof -
  from assms(2) obtain r where row: "jobRow (database s) k = Some r"
    and b: "if status r = Failed then retryCount r = maxRetries w + 1 else retryCount r \<le> maxRetries w"
    by (auto simp: retryBound_def split: option.splits)
  show ?thesis
  proof (cases e)
    case Poll
    show ?thesis
    proof (cases "isProcessing s")
      case False
      with Poll assms(2) show ?thesis by (simp add: poll_def)
    next
      case True
      let ?b = "getPendingJobs (database s) 10"
      from assms(1) have di: "distinct (jobIds (database s))" by (simp add: consistent_iff)
      show ?thesis
      proof (cases "k \<in> id_job ` set ?b")
        case False
        then have "jobRow (database (foldl (dispatchJob w) s ?b)) k = Some r"
          using dispatch_other [OF False] row by simp
        with Poll True b show ?thesis by (simp add: poll_def retryBound_def)
      next
        case in_batch: True
        then obtain t where t: "t \<in> set ?b" "id_job t = k" by auto
        from batch_rows [OF di t(1)] t(2) row have "status r = Pending" by simp
        with b have le: "retryCount r \<le> maxRetries w" by simp
        from dispatch_row [OF in_batch row] obtain now where
          "jobRow (database (foldl (dispatchJob w) s ?b)) k
             = Some (r\<lparr>status := Crawling, errorMessage := None, updatedAt := now\<rparr>)" by blast
        with Poll True le show ?thesis by (simp add: poll_def retryBound_def)
      qed
    qed
  next
    case (Task i env)
    show ?thesis
    proof (cases "i < length (queue s)")
      case False
      with Task assms(2) show ?thesis by simp
    next
      case True
      let ?job = "queue s ! i"
      let ?s0 = "popTask s i"
      have st: "step w s e = runTask w env ?s0 ?job" using Task True by simp
      have row0: "jobRow (database ?s0) k = Some r" using row by (simp add: popTask_def)
      show ?thesis
      proof (cases "k = id_job ?job")
        case False
        from runTask_other [OF row0 False] b show ?thesis unfolding st by (simp add: retryBound_def)
      next
        case same: True
        have "?job \<in> set (queue s)" using True by simp
        with assms(1) obtain r' where "jobRow (database s) (id_job ?job) = Some r'"
          "status r' = Crawling" "retryCount r' = retryCount ?job" unfolding consistent_iff by blast
        with row same have cr: "status r = Crawling" and eq: "retryCount r = retryCount ?job" by simp_all
        with b have le: "retryCount ?job \<le> maxRetries w" by simp
        have rowj: "jobRow (database ?s0) (id_job ?job) = Some r" using row0 same by simp
        obtain res s1 where h: "handler w env ?s0 ?job = (res, s1)" by (cases "handler w env ?s0 ?job")
        show ?thesis
        proof (cases res)
          case (Inl msg)
          from runTask_row_failure [OF rowj] h Inl same eq le show ?thesis
            unfolding st by (auto simp: retryBound_def)
        next
          case (Inr u)
          from runTask_row_success [OF rowj] h Inr same eq le show ?thesis
            unfolding st by (auto simp: retryBound_def)
        qed
      qed
    qed
  qed
qed

lemma retryBound_run:
  "consistent s \<Longrightarrow> retryBound w s k \<Longrightarrow> retryBound w (run w s events) k"
  unfolding run_def
proof (induction events arbitrary: s)
  case Nil
  then show ?case by simp
next
  case (Cons e es)
  have "consistent (step w s e)" using Cons.prems(1) by (rule consistent_step)
  moreover have "retryBound w (step w s e) k" using Cons.prems by (rule retryBound_step)
  ultimately show ?case using Cons.IH by simp
qed

lemma traceFrom_step:
  "n < m \<Longrightarrow> traceFrom m n = Crawling # Pending # traceFrom m (Suc n)"
proof -
  assume "n < m"
  then have "m - n = Suc (m - Suc n)" by simp
  then show ?thesis by (simp add: traceFrom_def)
qed

lemma traceFrom_last: "\<not> n < m \<Longrightarrow> traceFrom m n = [Crawling, Failed]"
  by (simp add: traceFrom_def)

lemma traceFrom_hd: "traceFrom m n = Crawling # tl (traceFrom m n)"
  by (cases "n < m") (simp_all add: traceFrom_step traceFrom_last)

lemma traceFrom_tl:
  "tl (traceFrom m n) = (if n < m then Pending # traceFrom m (Suc n) else [Failed])"
  by (simp add: traceFrom_step traceFrom_last)

text \<open>What an event does to the row of a job.\<close>

lemma step_row_cases:
  assumes "consistent s" "jobRow (database s) k = Some r"
  shows "(jobRow (database (step w s e)) k = Some r \<and> \<not> runsJob s e k \<and>
            (k \<in> id_job ` set (queue (step w s e)) \<longleftrightarrow> k \<in> id_job ` set (queue s))) \<or>
         (e = Poll \<and> status r = Pending \<and> k \<in> id_job ` set (queue (step w s e)) \<and>
            (\<exists>now. jobRow (database (step w s e)) k
               = Some (r\<lparr>status := Crawling, errorMessage := None, updatedAt := now\<rparr>))) \<or>
         (runsJob s e k \<and> status r = Crawling \<and> k \<in> id_job ` set (queue s) \<and>
            k \<notin> id_job ` set (queue (step w s e)) \<and>
            (if throwsAt w s e k
             then \<exists>msg now. jobRow (database (step w s e)) k
                    = Some (r\<lparr>retryCount := retryCount r + 1,
                              status := (if retryCount r < maxRetries w then Pending else Failed),
                              errorMessage := orNull (Some msg), updatedAt := now\<rparr>)
             else \<exists>now. jobRow (database (step w s e)) k
                    = Some (r\<lparr>status := Completed, errorMessage := None, updatedAt := now\<rparr>)))"
proof (cases e)
  case Poll
  show ?thesis
  proof (cases "isProcessing s")
    case False
    with Poll assms(2) show ?thesis by (simp add: poll_def runsJob_def)
  next
    case True
    let ?b = "getPendingJobs (database s) 10"
    from assms(1) have di: "distinct (jobIds (database s))" by (simp add: consistent_iff)
    have q: "queue (step w s e) = queue s @ ?b" using Poll True by (simp add: poll_def queue_dispatch)
    show ?thesis
    proof (cases "k \<in> id_job ` set ?b")
      case False
      then have "jobRow (database (foldl (dispatchJob w) s ?b)) k = Some r"
        using dispatch_other [OF False] assms(2) by simp
      with Poll True False q show ?thesis by (auto simp: poll_def runsJob_def)
    next
      case in_batch: True
      then obtain t where t: "t \<in> set ?b" "id_job t = k" by auto
      from batch_rows [OF di t(1)] t(2) assms(2) have p: "status r = Pending" by simp
      from dispatch_row [OF in_batch assms(2)] obtain now where
        "jobRow (database (foldl (dispatchJob w) s ?b)) k
           = Some (r\<lparr>status := Crawling, errorMessage := None, updatedAt := now\<rparr>)" by blast
      with Poll True p in_batch q show ?thesis by (auto simp: poll_def)
    qed
  qed
next
  case (Task i env)
  show ?thesis
  proof (cases "i < length (queue s)")
    case False
    with Task assms(2) show ?thesis by (simp add: runsJob_def)
  next
    case True
    let ?job = "queue s ! i"
    let ?s0 = "popTask s i"
    from assms(1) have dq: "distinct (map id_job (queue s))" by (simp add: consistent_iff)
    have st: "step w s e = runTask w env ?s0 ?job" using Task True by simp
    have row0: "jobRow (database ?s0) k = Some r" using assms(2) by (simp add: popTask_def)
    have q': "queue (step w s e) = queue ?s0" unfolding st by (rule runTask_queue)
    from popTask_queue [OF True dq] have sub: "set (queue ?s0) \<subseteq> set (queue s)"
      and notin: "id_job ?job \<notin> id_job ` set (queue ?s0)" by simp_all
    have jin: "?job \<in> set (queue s)" using True by simp
    have qs: "set (queue s) = insert ?job (set (queue ?s0))"
    proof -
      have "queue s = take i (queue s) @ ?job # drop (Suc i) (queue s)"
        using True by (simp add: id_take_nth_drop)
      then have "set (queue s) = set (take i (queue s) @ ?job # drop (Suc i) (queue s))" by simp
      then show ?thesis by (simp add: popTask_def)
    qed
    show ?thesis
    proof (cases "k = id_job ?job")
      case False
      have "jobRow (database (step w s e)) k = Some r" unfolding st using runTask_other [OF row0 False] .
      moreover have "\<not> runsJob s e k" using Task False by (simp add: runsJob_def)
      moreover have "k \<in> id_job ` set (queue (step w s e)) \<longleftrightarrow> k \<in> id_job ` set (queue s)"
        unfolding q' qs using False by auto
      ultimately show ?thesis by blast
    next
      case same: True
      from assms(1) jin obtain r' where "jobRow (database s) (id_job ?job) = Some r'"
        "status r' = Crawling" unfolding consistent_iff by blast
      with assms(2) same have cr: "status r = Crawling" by simp
      have rj: "runsJob s e k" using Task True same by (simp add: runsJob_def)
      have kin: "k \<in> id_job ` set (queue s)" using jin same by blast
      have kout: "k \<notin> id_job ` set (queue (step w s e))" unfolding q' using notin same by simp
      have rowj: "jobRow (database ?s0) (id_job ?job) = Some r" using row0 same by simp
      from assms(1) jin obtain r2 where "jobRow (database s) (id_job ?job) = Some r2"
        "retryCount r2 = retryCount ?job" unfolding consistent_iff by blast
      with assms(2) same have eq: "retryCount ?job = retryCount r" by simp
      obtain res s1 where h: "handler w env ?s0 ?job = (res, s1)" by (cases "handler w env ?s0 ?job")
      show ?thesis
      proof (cases res)
        case (Inl msg)
        then have th: "throwsAt w s e k" using Task True same h by (simp add: throwsAt_def)
        from runTask_row_failure [OF rowj] h Inl same eq
        have "jobRow (database (step w s e)) k
                    = Some (r\<lparr>retryCount := retryCount r + 1,
                              status := (if retryCount r < maxRetries w then Pending else Failed),
                              errorMessage := orNull (Some msg), updatedAt := newDate w (tick s1 + 1)\<rparr>)"
          unfolding st by simp
        with rj cr kin kout th show ?thesis by auto
      next
        case (Inr u)
        then have th: "\<not> throwsAt w s e k" using Task h by (simp add: throwsAt_def)
        from runTask_row_success [OF rowj] h Inr same
        have "jobRow (database (step w s e)) k
                    = Some (r\<lparr>status := Completed, errorMessage := None, updatedAt := newDate w (tick s1)\<rparr>)"
          unfolding st by simp
        with rj cr kin kout th show ?thesis by auto
      qed
    qed
  qed
qed

lemma expected_same:
  assumes "jobRow (database s) k = Some r" "jobRow (database s') k = Some r"
    "k \<in> id_job ` set (queue s') \<longleftrightarrow> k \<in> id_job ` set (queue s)"
  shows "statusOf s' k = statusOf s k \<and> expected w s' k = expected w s k"
  using assms unfolding statusOf_def expected_def by simp

lemma expected_dispatch:
  assumes "jobRow (database s) k = Some r" "status r = Pending" "k \<in> id_job ` set (queue s')"
    "jobRow (database s') k = Some (r\<lparr>status := Crawling, errorMessage := None, updatedAt := now\<rparr>)"
  shows "statusOf s' k = Some Crawling \<and> statusOf s' k \<noteq> statusOf s k \<and>
         expected w s k = Crawling # expected w s' k"
proof -
  have a: "expected w s k = traceFrom (maxRetries w) (retryCount r)"
    using assms(1,2) unfolding expected_def by simp
  have b: "expected w s' k = tl (traceFrom (maxRetries w) (retryCount r))"
    using assms(3,4) unfolding expected_def by simp
  have c: "statusOf s' k = Some Crawling" "statusOf s k = Some Pending"
    using assms(1,2,4) unfolding statusOf_def by simp_all
  from a b c traceFrom_hd [of "maxRetries w" "retryCount r"] show ?thesis by simp
qed

lemma expected_throw:
  assumes "jobRow (database s) k = Some r" "status r = Crawling" "k \<in> id_job ` set (queue s)"
    "k \<notin> id_job ` set (queue s')" "retryCount r \<le> maxRetries w"
    "jobRow (database s') k
         = Some (r\<lparr>retryCount := retryCount r + 1,
                   status := (if retryCount r < maxRetries w then Pending else Failed),
                   errorMessage := m, updatedAt := now\<rparr>)"
  shows "\<exists>st. statusOf s' k = Some st \<and> statusOf s' k \<noteq> statusOf s k \<and>
         expected w s k = st # expected w s' k"
proof -
  have e1: "expected w s k = tl (traceFrom (maxRetries w) (retryCount r))"
    using assms(1,2,3) unfolding expected_def by simp
  have c: "statusOf s k = Some Crawling" using assms(1,2) unfolding statusOf_def by simp
  show ?thesis
  proof (cases "retryCount r < maxRetries w")
    case True
    have "expected w s' k = traceFrom (maxRetries w) (Suc (retryCount r))"
      using assms(6) True unfolding expected_def by simp
    with e1 True have "expected w s k = Pending # expected w s' k" by (simp add: traceFrom_tl)
    moreover have "statusOf s' k = Some Pending" using assms(6) True unfolding statusOf_def by simp
    ultimately show ?thesis using c by simp
  next
    case False
    have "expected w s' k = []" using assms(6) False unfolding expected_def by simp
    with e1 False have "expected w s k = Failed # expected w s' k" by (simp add: traceFrom_tl)
    moreover have "statusOf s' k = Some Failed" using assms(6) False unfolding statusOf_def by simp
    ultimately show ?thesis using c by simp
  qed
qed


lemma expected_step:
  assumes "consistent s" "retryBound w s k" "runsJob s e k \<longrightarrow> throwsAt w s e k"
  shows "(statusOf (step w s e) k = statusOf s k \<and> expected w (step w s e) k = expected w s k) \<or>
         (\<exists>st. statusOf (step w s e) k = Some st \<and> statusOf (step w s e) k \<noteq> statusOf s k \<and>
               expected w s k = st # expected w (step w s e) k)"
proof -
  from assms(2) obtain r where row: "jobRow (database s) k = Some r"
    and b: "status r \<noteq> Failed \<longrightarrow> retryCount r \<le> maxRetries w"
    unfolding retryBound_def by (cases "jobRow (database s) k") (simp_all split: if_splits)
  let ?s' = "step w s e"
  from step_row_cases [OF assms(1) row, of w e] show ?thesis
  proof (elim disjE conjE exE)
    assume "jobRow (database ?s') k = Some r"
      "(k \<in> id_job ` set (queue ?s')) = (k \<in> id_job ` set (queue s))"
    from expected_same [OF row this] show ?thesis by blast
  next
    fix now
    assume "status r = Pending" "k \<in> id_job ` set (queue ?s')"
      "jobRow (database ?s') k = Some (r\<lparr>status := Crawling, errorMessage := None, updatedAt := now\<rparr>)"
    from expected_dispatch [OF row this] show ?thesis by blast
  next
    assume r: "runsJob s e k" and c: "status r = Crawling" and q: "k \<in> id_job ` set (queue s)"
      and q': "k \<notin> id_job ` set (queue ?s')"
      and i: "if throwsAt w s e k
             then \<exists>msg now. jobRow (database ?s') k
                    = Some (r\<lparr>retryCount := retryCount r + 1,
                              status := (if retryCount r < maxRetries w then Pending else Failed),
                              errorMessage := orNull (Some msg), updatedAt := now\<rparr>)
             else \<exists>now. jobRow (database ?s') k
                    = Some (r\<lparr>status := Completed, errorMessage := None, updatedAt := now\<rparr>)"
    from r assms(3) have t: "throwsAt w s e k" by blast
    from i t obtain msg now where row': "jobRow (database ?s') k
                    = Some (r\<lparr>retryCount := retryCount r + 1,
                              status := (if retryCount r < maxRetries w then Pending else Failed),
                              errorMessage := orNull (Some msg), updatedAt := now\<rparr>)"
      by (simp only: if_True) blast
    from b c have le: "retryCount r \<le> maxRetries w" by simp
    from expected_throw [OF row c q q' le row'] show ?thesis by blast
  qed
qed

lemma history_expected:
  assumes "consistent s" "retryBound w s k" "alwaysThrows w s events k"
  shows "history w s events k @ expected w (run w s events) k = expected w s k"
  using assms
proof (induction events arbitrary: s)
  case Nil
  show ?case by (simp add: run_def)
next
  case (Cons e es)
  let ?s' = "step w s e"
  have c': "consistent ?s'" using Cons.prems(1) by (rule consistent_step)
  have b': "retryBound w ?s' k" using Cons.prems(1,2) by (rule retryBound_step)
  have t: "runsJob s e k \<longrightarrow> throwsAt w s e k" and a': "alwaysThrows w ?s' es k"
    using Cons.prems(3) by (simp_all split: if_splits)
  have r: "run w s (e # es) = run w ?s' es" by (simp add: run_def)
  have ih: "history w ?s' es k @ expected w (run w ?s' es) k = expected w ?s' k"
    using Cons.IH [OF c' b' a'] .
  from expected_step [OF Cons.prems(1,2) t] show ?case
  proof
    assume "statusOf ?s' k = statusOf s k \<and> expected w ?s' k = expected w s k"
    with ih show ?thesis unfolding r by simp
  next
    assume "\<exists>st. statusOf ?s' k = Some st \<and> statusOf ?s' k \<noteq> statusOf s k \<and>
               expected w s k = st # expected w ?s' k"
    then obtain st where "statusOf ?s' k = Some st" "statusOf ?s' k \<noteq> statusOf s k"
      "expected w s k = st # expected w ?s' k" by blast
    with ih show ?thesis unfolding r by simp
  qed
qed

lemma retry_step:
  assumes "consistent s" "jobRow (database s) k = Some r"
  shows "\<exists>r'. jobRow (database (step w s e)) k = Some r' \<and>
              retryCount r' = retryCount r + (if throwsAt w s e k then 1 else 0)"
proof -
  let ?s' = "step w s e"
  from step_row_cases [OF assms, of w e] show ?thesis
  proof (elim disjE conjE exE)
    assume a: "jobRow (database ?s') k = Some r" "\<not> runsJob s e k"
    then have "\<not> throwsAt w s e k" using throwsAt_runsJob by blast
    with a(1) show ?thesis by simp
  next
    fix now
    assume a: "e = Poll"
      "jobRow (database ?s') k = Some (r\<lparr>status := Crawling, errorMessage := None, updatedAt := now\<rparr>)"
    from a(1) have "\<not> throwsAt w s e k" by (simp add: throwsAt_def)
    with a(2) show ?thesis by simp
  next
    assume i: "if throwsAt w s e k
             then \<exists>msg now. jobRow (database ?s') k
                    = Some (r\<lparr>retryCount := retryCount r + 1,
                              status := (if retryCount r < maxRetries w then Pending else Failed),
                              errorMessage := orNull (Some msg), updatedAt := now\<rparr>)
             else \<exists>now. jobRow (database ?s') k
                    = Some (r\<lparr>status := Completed, errorMessage := None, updatedAt := now\<rparr>)"
    show ?thesis
    proof (cases "throwsAt w s e k")
      case True
      with i obtain msg now where "jobRow (database ?s') k
                    = Some (r\<lparr>retryCount := retryCount r + 1,
                              status := (if retryCount r < maxRetries w then Pending else Failed),
                              errorMessage := orNull (Some msg), updatedAt := now\<rparr>)"
        by (simp only: if_True) blast
      with True show ?thesis by simp
    next
      case False
      with i obtain now where "jobRow (database ?s') k
                    = Some (r\<lparr>status := Completed, errorMessage := None, updatedAt := now\<rparr>)"
        by (simp only: if_False) blast
      with False show ?thesis by simp
    qed
  qed
qed

lemma retry_counts:
  assumes "consistent s" "jobRow (database s) k = Some r"
  shows "\<exists>r'. jobRow (database (run w s events)) k = Some r' \<and>
              retryCount r' = retryCount r + failures w s events k"
  using assms unfolding run_def
proof (induction events arbitrary: s r)
  case Nil
  then show ?case by simp
next
  case (Cons e es)
  from retry_step [OF Cons.prems, of w e] obtain r1 where
    r1: "jobRow (database (step w s e)) k = Some r1"
        "retryCount r1 = retryCount r + (if throwsAt w s e k then 1 else 0)" by blast
  have "consistent (step w s e)" using Cons.prems(1) by (rule consistent_step)
  from Cons.IH [OF this r1(1)] obtain r' where
    "jobRow (database (foldl (step w) (step w s e) es)) k = Some r'"
    "retryCount r' = retryCount r1 + failures w (step w s e) es k" by blast
  with r1(2) show ?case by simp
qed

lemma failures_failed:
  assumes "consistent s" "jobRow (database s) k = Some r" "status r = Pending" "retryCount r = 0"
  shows "\<exists>r'. jobRow (database (run w s events)) k = Some r' \<and>
              retryCount r' = failures w s events k \<and>
              failures w s events k \<le> maxRetries w + 1 \<and>
              (status r' = Failed \<longleftrightarrow> failures w s events k = maxRetries w + 1)"
proof -
  have "retryBound w s k" using assms(2,3,4) by (simp add: retryBound_def)
  then have b: "retryBound w (run w s events) k" using assms(1) retryBound_run by blast
  from retry_counts [OF assms(1,2), of w events] assms(4) obtain r' where
    r': "jobRow (database (run w s events)) k = Some r'" "retryCount r' = failures w s events k"
    by auto
  from b r'(1) have "if status r' = Failed then retryCount r' = maxRetries w + 1
                     else retryCount r' \<le> maxRetries w" by (simp add: retryBound_def)
  with r' show ?thesis by (cases "status r' = Failed") simp_all
qed

lemma history_retryTrace:
  assumes "consistent s" "jobRow (database s) k = Some r" "status r = Pending" "retryCount r = 0"
    and "alwaysThrows w s events k"
  shows "prefix (history w s events k) (retryTrace (maxRetries w)) \<and>
         (failures w s events k = maxRetries w + 1 \<longrightarrow>
            history w s events k = retryTrace (maxRetries w))"
proof -
  have b: "retryBound w s k" using assms(2,3,4) by (simp add: retryBound_def)
  have e0: "expected w s k = retryTrace (maxRetries w)"
    using assms(2,3,4) by (simp add: expected_def retryTrace_def)
  note h = history_expected [OF assms(1) b assms(5), unfolded e0]
  have p: "prefix (history w s events k) (retryTrace (maxRetries w))"
    using h by (metis prefixI)
  have "history w s events k = retryTrace (maxRetries w)" if f: "failures w s events k = maxRetries w + 1"
  proof -
    from failures_failed [OF assms(1,2,3,4), of w events] f obtain r' where
      "jobRow (database (run w s events)) k = Some r'" "status r' = Failed" by auto
    then have "expected w (run w s events) k = []" by (simp add: expected_def)
    with h show ?thesis by simp
  qed
  with p show ?thesis by blast
qed

text \<open>
  C2.  When the handler of a dispatched task throws the message \<open>msg\<close>, the retry count of
  its row grows by one, the row becomes \<^verbatim>\<open>pending\<close> if the count before was below
  \<^verbatim>\<open>maxRetries\<close> and \<^verbatim>\<open>failed\<close> otherwise, and the row's error message is \<open>msg\<close> (\<^verbatim>\<open>NULL\<close> if
  \<open>msg\<close> is the empty string, which \<^verbatim>\<open>errorMessage || null\<close> turns to \<^verbatim>\<open>null\<close>).  A pending
  job in the batch of a poll is \<^verbatim>\<open>crawling\<close>, with its count unchanged, and in the pool
  after the poll.  In every execution from a state where a job is pending with count 0,
  its count is the number of times its handler has thrown, and it is failed exactly when
  that number is \<^verbatim>\<open>maxRetries + 1\<close>; if moreover the handler throws every time the job's
  task is run in that execution (at the states the execution reaches), then the statuses
  its row takes on are a prefix of \<^verbatim>\<open>crawling, pending\<close> repeated \<^verbatim>\<open>maxRetries\<close> times
  followed by \<^verbatim>\<open>crawling, failed\<close>, and all of it once the handler has thrown
  \<^verbatim>\<open>maxRetries + 1\<close> times.  When the job is the only pending one and each round polls
  and runs its task, it is pending again after each of the first \<^verbatim>\<open>maxRetries\<close> rounds
  and failed after the next.  The row of a failed job never changes again.
\<close>

theorem scheduler_retry_policy:
  "(consistent s \<and> i < length (queue s) \<and>
    fst (handler w env (popTask s i) (queue s ! i)) = Inl msg \<longrightarrow>
      (\<exists>r r'. jobRow (database s) (id_job (queue s ! i)) = Some r \<and> status r = Crawling \<and>
           retryCount r = retryCount (queue s ! i) \<and>
           jobRow (database (step w s (Task i env))) (id_job (queue s ! i)) = Some r' \<and>
           retryCount r' = retryCount r + 1 \<and>
           status r' = (if retryCount r < maxRetries w then Pending else Failed) \<and>
           errorMessage r' = (if msg = [] then None else Some msg))) \<and>
   (consistent s \<and> isProcessing s \<and> jobRow (database s) k = Some r \<and>
    k \<in> id_job ` set (getPendingJobs (database s) 10) \<longrightarrow>
      status r = Pending \<and> k \<in> id_job ` set (queue (step w s Poll)) \<and>
      (\<exists>r'. jobRow (database (step w s Poll)) k = Some r' \<and> status r' = Crawling \<and>
            retryCount r' = retryCount r)) \<and>
   (consistent s \<and> jobRow (database s) k = Some r \<and> status r = Pending \<and> retryCount r = 0 \<longrightarrow>
      (\<exists>r'. jobRow (database (run w s events)) k = Some r' \<and>
            retryCount r' = failures w s events k \<and>
            failures w s events k \<le> maxRetries w + 1 \<and>
            (status r' = Failed \<longleftrightarrow> failures w s events k = maxRetries w + 1)) \<and>
      (alwaysThrows w s events k \<longrightarrow>
         prefix (history w s events k) (retryTrace (maxRetries w)) \<and>
         (failures w s events k = maxRetries w + 1 \<longrightarrow>
            history w s events k = retryTrace (maxRetries w)))) \<and>
   (onlyPending s k 0 \<and> alwaysThrows w s (failingRounds envs) k \<longrightarrow>
      (length envs \<le> maxRetries w \<longrightarrow>
         onlyPending (run w s (failingRounds envs)) k (length envs)) \<and>
      (length envs = maxRetries w + 1 \<longrightarrow>
         (\<exists>r'. jobRow (database (run w s (failingRounds envs))) k = Some r' \<and> status r' = Failed \<and>
               retryCount r' = maxRetries w + 1))) \<and>
   (consistent s \<and> jobRow (database s) k = Some r \<and> status r = Failed \<longrightarrow>
      jobRow (database (run w s events)) k = Some r)"
proof (intro conjI impI)
  assume "consistent s \<and> i < length (queue s) \<and>
    fst (handler w env (popTask s i) (queue s ! i)) = Inl msg"
  then show "\<exists>r r'. jobRow (database s) (id_job (queue s ! i)) = Some r \<and> status r = Crawling \<and>
           retryCount r = retryCount (queue s ! i) \<and>
           jobRow (database (step w s (Task i env))) (id_job (queue s ! i)) = Some r' \<and>
           retryCount r' = retryCount r + 1 \<and>
           status r' = (if retryCount r < maxRetries w then Pending else Failed) \<and>
           errorMessage r' = (if msg = [] then None else Some msg)"
    using task_failure_fields by blast
next
  assume a: "consistent s \<and> isProcessing s \<and> jobRow (database s) k = Some r \<and>
    k \<in> id_job ` set (getPendingJobs (database s) 10)"
  note b = batch_dispatched [of s k r w]
  from a b show "status r = Pending" by blast
  from a b show "k \<in> id_job ` set (queue (step w s Poll))" by blast
  from a b show "\<exists>r'. jobRow (database (step w s Poll)) k = Some r' \<and> status r' = Crawling \<and>
            retryCount r' = retryCount r" by blast
next
  assume "consistent s \<and> jobRow (database s) k = Some r \<and> status r = Pending \<and> retryCount r = 0"
  then show "\<exists>r'. jobRow (database (run w s events)) k = Some r' \<and>
            retryCount r' = failures w s events k \<and>
            failures w s events k \<le> maxRetries w + 1 \<and>
            (status r' = Failed \<longleftrightarrow> failures w s events k = maxRetries w + 1)"
    using failures_failed [of s k r w events] by blast
next
  assume a: "consistent s \<and> jobRow (database s) k = Some r \<and> status r = Pending \<and> retryCount r = 0"
    and t: "alwaysThrows w s events k"
  note h = history_retryTrace [of s k r w events]
  from a t h show "prefix (history w s events k) (retryTrace (maxRetries w))" by blast
  assume "failures w s events k = maxRetries w + 1"
  with a t h show "history w s events k = retryTrace (maxRetries w)" by blast
next
  assume a: "onlyPending s k 0 \<and> alwaysThrows w s (failingRounds envs) k"
  assume "length envs \<le> maxRetries w"
  with a failing_rounds_pending [of s k 0 w envs]
  show "onlyPending (run w s (failingRounds envs)) k (length envs)" by simp
next
  assume a: "onlyPending s k 0 \<and> alwaysThrows w s (failingRounds envs) k"
  assume "length envs = maxRetries w + 1"
  with a failing_rounds_failed [of s k w envs]
  show "\<exists>r'. jobRow (database (run w s (failingRounds envs))) k = Some r' \<and> status r' = Failed \<and>
               retryCount r' = maxRetries w + 1" by blast
next
  assume "consistent s \<and> jobRow (database s) k = Some r \<and> status r = Failed"
  then show "jobRow (database (run w s events)) k = Some r" using failed_forever by blast
qed

lemma twoSeeds_consistent: "consistent twoSeeds"
  by code_simp

lemma twoSeeds_row:
  "jobRow (database twoSeeds) ''job-'' = Some (the (jobRow (database twoSeeds) ''job-'')) \<and>
   status (the (jobRow (database twoSeeds) ''job-'')) = Pending \<and>
   retryCount (the (jobRow (database twoSeeds) ''job-'')) = 0"
  by code_simp

lemma retrySchedule_throws: "alwaysThrows retryWorld twoSeeds retrySchedule ''job-''"
  by code_simp

lemma retrySchedule_failures: "failures retryWorld twoSeeds retrySchedule ''job-'' = 4"
  by code_simp

lemma retrySchedule_history:
  "history retryWorld twoSeeds retrySchedule ''job-''
     = [Crawling, Pending, Crawling, Pending, Crawling, Pending, Crawling, Failed]"
  by code_simp

lemma twoSeeds_polled:
  "consistent (step retryWorld twoSeeds Poll) \<and> 0 < length (queue (step retryWorld twoSeeds Poll)) \<and>
   id_job (queue (step retryWorld twoSeeds Poll) ! 0) = ''job-'' \<and>
   retryCount (queue (step retryWorld twoSeeds Poll) ! 0) = 0"
  by code_simp

lemma twoSeeds_throw:
  "fst (handler retryWorld failingEnv (popTask (step retryWorld twoSeeds Poll) 0)
          (queue (step retryWorld twoSeeds Poll) ! 0)) = Inl ''net::ERR_FAILED''"
  by code_simp

lemma oneSeed_onlyPending: "onlyPending oneSeed ''job-'' 0"
  by code_simp

lemma oneSeed_throws:
  "alwaysThrows retryWorld oneSeed (failingRounds (replicate 4 failingEnv)) ''job-''"
  by code_simp

theorem scheduler_retry_policy_witness:
  "consistent twoSeeds \<and> alwaysThrows retryWorld twoSeeds retrySchedule ''job-'' \<and>
   failures retryWorld twoSeeds retrySchedule ''job-'' = 4 \<and>
   history retryWorld twoSeeds retrySchedule ''job-''
     = [Crawling, Pending, Crawling, Pending, Crawling, Pending, Crawling, Failed] \<and>
   history retryWorld twoSeeds retrySchedule ''job-'' = retryTrace 3 \<and>
   (\<exists>r'. jobRow (database (run retryWorld twoSeeds retrySchedule)) ''job-'' = Some r' \<and>
         retryCount r' = 4 \<and> status r' = Failed) \<and>
   (\<exists>r r'. jobRow (database (step retryWorld twoSeeds Poll)) ''job-'' = Some r \<and>
         status r = Crawling \<and> retryCount r = 0 \<and>
         jobRow (database (step retryWorld (step retryWorld twoSeeds Poll) (Task 0 failingEnv))) ''job-''
           = Some r' \<and>
         retryCount r' = 1 \<and> status r' = Pending \<and> errorMessage r' = Some ''net::ERR_FAILED'') \<and>
   onlyPending oneSeed ''job-'' 0 \<and>
   alwaysThrows retryWorld oneSeed (failingRounds (replicate 4 failingEnv)) ''job-'' \<and>
   (\<exists>r'. jobRow (database (run retryWorld oneSeed (failingRounds (replicate 4 failingEnv)))) ''job-''
           = Some r' \<and> status r' = Failed \<and> retryCount r' = 4)"
proof -
  have m: "maxRetries retryWorld = 3" by (simp add: retryWorld_def exampleWorld_def)
  note run = scheduler_retry_policy [where s = twoSeeds and k = "''job-''" and w = retryWorld
      and r = "the (jobRow (database twoSeeds) ''job-'')" and events = retrySchedule,
      THEN conjunct2, THEN conjunct2, THEN conjunct1]
  note fail = scheduler_retry_policy [where s = "step retryWorld twoSeeds Poll" and i = 0
      and w = retryWorld and env = failingEnv and msg = "''net::ERR_FAILED''", THEN conjunct1]
  have a: "\<exists>r'. jobRow (database (run retryWorld twoSeeds retrySchedule)) ''job-'' = Some r' \<and>
         retryCount r' = 4 \<and> status r' = Failed"
    using run twoSeeds_consistent twoSeeds_row retrySchedule_failures m by auto
  have b: "history retryWorld twoSeeds retrySchedule ''job-'' = retryTrace 3"
    using run twoSeeds_consistent twoSeeds_row retrySchedule_throws retrySchedule_failures m by auto
  have c: "\<exists>r r'. jobRow (database (step retryWorld twoSeeds Poll)) ''job-'' = Some r \<and>
         status r = Crawling \<and> retryCount r = 0 \<and>
         jobRow (database (step retryWorld (step retryWorld twoSeeds Poll) (Task 0 failingEnv))) ''job-''
           = Some r' \<and>
         retryCount r' = 1 \<and> status r' = Pending \<and> errorMessage r' = Some ''net::ERR_FAILED''"
    using fail twoSeeds_polled twoSeeds_throw m by auto
  note rounds = scheduler_retry_policy [where s = oneSeed and k = "''job-''" and w = retryWorld
      and envs = "replicate 4 failingEnv", THEN conjunct2, THEN conjunct2, THEN conjunct2,
      THEN conjunct1]
  have d: "\<exists>r'. jobRow (database (run retryWorld oneSeed (failingRounds (replicate 4 failingEnv)))) ''job-''
           = Some r' \<and> status r' = Failed \<and> retryCount r' = 4"
    using rounds oneSeed_onlyPending oneSeed_throws m by simp
  show ?thesis
    using a b c d twoSeeds_consistent retrySchedule_throws retrySchedule_failures
      retrySchedule_history oneSeed_onlyPending oneSeed_throws
    by blast
qed

section \<open>Skipped jobs, depth limit, deduplication and budget: proofs\<close>

lemma crawlUrl_null_iff:
  "fst (crawlUrl w env s url depth) = Inr None \<longleftrightarrow>
     browserContext s \<and> fst (checkRobots w env (robots s) url) = Inr False"
proof (cases "browserContext s")
  case False
  then show ?thesis by (simp add: crawlUrl_def)
next
  case True
  obtain res m where c: "checkRobots w env (robots s) url = (res, m)"
    by (cases "checkRobots w env (robots s) url")
  show ?thesis
    using True c
    by (cases res; cases "page env") (auto simp: crawlUrl_def Let_def)
qed

lemma completed_count_list:
  assumes "distinct (map id_job xs)" "find (\<lambda>x. id_job x = k) xs = Some r" "status r \<noteq> Completed"
  shows "length (filter (\<lambda>j. status j = Completed)
           (map (\<lambda>j. if id_job j = k then j\<lparr>status := Completed, errorMessage := e, updatedAt := now\<rparr>
                      else j) xs))
       = length (filter (\<lambda>j. status j = Completed) xs) + 1"
  using assms
proof (induction xs)
  case Nil
  then show ?case by simp
next
  case (Cons x xs)
  show ?case
  proof (cases "id_job x = k")
    case True
    with Cons.prems have xr: "x = r" by simp
    have "k \<notin> id_job ` set xs" using Cons.prems(1) True by auto
    then have "map (\<lambda>j. if id_job j = k then j\<lparr>status := Completed, errorMessage := e, updatedAt := now\<rparr>
                      else j) xs = xs"
      by (intro map_idI) auto
    with True xr Cons.prems(3) show ?thesis by simp
  next
    case False
    with Cons.prems Cons.IH show ?thesis by simp
  qed
qed

lemma completed_count:
  assumes "distinct (jobIds db)" "jobRow db k = Some r" "status r \<noteq> Completed"
  shows "countStatus (updateJobStatus db k Completed msg now) Completed = countStatus db Completed + 1"
  using completed_count_list [where xs = "jobs db" and k = k and r = r and e = "orNull msg" and now = now]
    assms
  by (simp add: countStatus_def updateJobStatus_def jobIds_def jobRow_def)

lemma status_cases: "st \<in> {Pending, Crawling, Processing, Captioning, Completed, Failed}"
  by (cases st) simp_all

lemma task_blocked_step:
  assumes "consistent s" "i < length (queue s)" "\<not> maxUrlsReached w (popTask s i)"
    and "crawlUrl w env (popTask s i) (url_job (queue s ! i)) (depth_job (queue s ! i)) = (Inr None, s1)"
  shows "handler w env (popTask s i) (queue s ! i) = (Inr (), countSkipped s1) \<and>
         urlsSkipped (stats (step w s (Task i env))) = urlsSkipped (stats s) + 1 \<and>
         fst (snd (getJobStats (database (step w s (Task i env)))))
           = fst (snd (getJobStats (database s))) + 1 \<and>
         (\<exists>r. jobRow (database s) (id_job (queue s ! i)) = Some r \<and> status r = Crawling \<and>
              retryCount r = retryCount (queue s ! i) \<and>
              (\<forall>events. jobRow (database (run w (step w s (Task i env)) events)) (id_job (queue s ! i))
                 = Some (r\<lparr>status := Completed, errorMessage := None,
                           updatedAt := newDate w (tick s1)\<rparr>)))"
proof -
  let ?job = "queue s ! i"
  let ?s0 = "popTask s i"
  let ?s' = "step w s (Task i env)"
  have h: "handler w env ?s0 ?job = (Inr (), countSkipped s1)"
    using assms(3,4) by (rule handler_blocked)
  have fr: "database s1 = database s" "stats s1 = stats s" "queue s1 = queue ?s0"
    using crawlUrl_frame [of w env ?s0 "url_job ?job" "depth_job ?job"] assms(4)
    by (simp_all add: popTask_def)
  have st: "?s' = runTask w env ?s0 ?job" using assms(2) by simp
  have s': "?s' = (countSkipped s1)\<lparr>database := updateJobStatus (database s) (id_job ?job) Completed None
                        (newDate w (tick s1)), tick := tick s1 + 1\<rparr>"
    unfolding st using runTask_success [OF h] fr by (simp add: countSkipped_def)
  have sk: "urlsSkipped (stats ?s') = urlsSkipped (stats s) + 1"
    unfolding s' using fr by (simp add: countSkipped_def)
  have "?job \<in> set (queue s)" using assms(2) by simp
  with assms(1) obtain r where r: "jobRow (database s) (id_job ?job) = Some r" "status r = Crawling"
    "retryCount r = retryCount ?job" unfolding consistent_iff by blast
  from assms(1) have di: "distinct (jobIds (database s))" by (simp add: consistent_iff)
  have cnt: "fst (snd (getJobStats (database ?s'))) = fst (snd (getJobStats (database s))) + 1"
    unfolding s' using completed_count [OF di r(1)] r(2) by (simp add: getJobStats_def)
  let ?r' = "r\<lparr>status := Completed, errorMessage := None, updatedAt := newDate w (tick s1)\<rparr>"
  have row': "jobRow (database ?s') (id_job ?job) = Some ?r'"
    unfolding s' using r(1) by (simp add: jobRow_updateJobStatus orNull_def)
  have c': "consistent ?s'" using assms(1) by (rule consistent_step)
  from assms(1) have dq: "distinct (map id_job (queue s))" by (simp add: consistent_iff)
  have "id_job ?job \<notin> id_job ` set (queue ?s')"
    unfolding st runTask_queue using popTask_queue [OF assms(2) dq] by simp
  then have "settled ?s' (id_job ?job) ?r'" using row' by (simp add: settled_def)
  then have "\<forall>events. settled (run w ?s' events) (id_job ?job) ?r'"
    using settled_run [OF c'] by blast
  then have fe: "\<forall>events. jobRow (database (run w ?s' events)) (id_job ?job) = Some ?r'"
    by (simp add: settled_def)
  show ?thesis using h sk cnt r fe by blast
qed

lemma getLinksToFollow_deep: "depth_cap capture \<ge> md \<Longrightarrow> getLinksToFollow cfg visited capture md = []"
  by (simp add: getLinksToFollow_def)

lemma step_depth0:
  assumes "maxDepth (config w) = 0"
  shows "map url_job (jobs (database (step w s e))) = map url_job (jobs (database s)) \<and>
         urlsDiscovered (stats (step w s e)) = urlsDiscovered (stats s)"
proof (cases e)
  case Poll
  then show ?thesis using dispatch_frame [of w s "getPendingJobs (database s) 10"] by (simp add: poll_def)
next
  case (Task i env)
  show ?thesis
  proof (cases "i < length (queue s)")
    case False
    with Task show ?thesis by simp
  next
    case True
    let ?job = "queue s ! i"
    let ?s0 = "popTask s i"
    obtain res s1 where h: "handler w env ?s0 ?job = (res, s1)" by (cases "handler w env ?s0 ?job")
    have "depth_job ?job \<ge> maxDepth (config w)" using assms by simp
    from handler_deep [OF this, of env ?s0] h
    have "jobs (database s1) = jobs (database s)" "urlsDiscovered (stats s1) = urlsDiscovered (stats s)"
      by (simp_all add: popTask_def)
    with h Task True show ?thesis by (cases res) (simp_all add: runTask_def Let_def)
  qed
qed

lemma run_depth0:
  assumes "maxDepth (config w) = 0"
  shows "map url_job (jobs (database (run w s events))) = map url_job (jobs (database s)) \<and>
         urlsDiscovered (stats (run w s events)) = urlsDiscovered (stats s)"
  unfolding run_def
proof (induction events arbitrary: s)
  case Nil
  show ?case by simp
next
  case (Cons e es)
  from Cons.IH [of "step w s e"] step_depth0 [OF assms, of s e] show ?case by simp
qed

lemma seed_one:
  assumes "jobs (database s) = []" "captures (database s) = []"
  shows "map url_job (jobs (database (addSeeds w s [url]))) = [url] \<and>
         urlsDiscovered (stats (addSeeds w s [url])) = urlsDiscovered (stats s) + 1"
  using assms by (simp add: addUrl_def urlExists_def addJob_def bumpDiscovered_def Let_def)

text \<open>
  C10.  \<open>crawlUrl\<close> returns null exactly when the robots check disallows the URL.  Then
  the handler returns normally, \<^verbatim>\<open>urlsSkipped\<close> grows by one, the row of the job goes from
  \<^verbatim>\<open>crawling\<close> to \<^verbatim>\<open>completed\<close> with its retry count as it was, the number of completed
  jobs grows by one, and the row never changes again, so the job is not retried.  Every
  task whose handler returns normally, a capture included, ends \<^verbatim>\<open>completed\<close> in the same
  way.  A status is one of the six values; none of them is for skipped jobs.
\<close>

theorem skipped_job_completed:
  "(fst (crawlUrl w env s url depth) = Inr None \<longleftrightarrow>
      browserContext s \<and> fst (checkRobots w env (robots s) url) = Inr False) \<and>
   (st \<in> {Pending, Crawling, Processing, Captioning, Completed, Failed}) \<and>
   (consistent s \<and> i < length (queue s) \<and>
    fst (handler w env (popTask s i) (queue s ! i)) = Inr () \<longrightarrow>
      (\<exists>r. jobRow (database (step w s (Task i env))) (id_job (queue s ! i)) = Some r \<and>
           status r = Completed)) \<and>
   (consistent s \<and> i < length (queue s) \<and> \<not> maxUrlsReached w (popTask s i) \<and>
    fst (crawlUrl w env (popTask s i) (url_job (queue s ! i)) (depth_job (queue s ! i))) = Inr None
    \<longrightarrow>
      fst (handler w env (popTask s i) (queue s ! i)) = Inr () \<and>
      urlsSkipped (stats (step w s (Task i env))) = urlsSkipped (stats s) + 1 \<and>
      fst (snd (getJobStats (database (step w s (Task i env)))))
        = fst (snd (getJobStats (database s))) + 1 \<and>
      (\<exists>r now. jobRow (database s) (id_job (queue s ! i)) = Some r \<and> status r = Crawling \<and>
         retryCount r = retryCount (queue s ! i) \<and>
         (\<forall>events. jobRow (database (run w (step w s (Task i env)) events)) (id_job (queue s ! i))
            = Some (r\<lparr>status := Completed, errorMessage := None, updatedAt := now\<rparr>))))"
proof (intro conjI impI)
  show "fst (crawlUrl w env s url depth) = Inr None \<longleftrightarrow>
      browserContext s \<and> fst (checkRobots w env (robots s) url) = Inr False"
    by (rule crawlUrl_null_iff)
next
  show "st \<in> {Pending, Crawling, Processing, Captioning, Completed, Failed}" by (rule status_cases)
next
  assume a: "consistent s \<and> i < length (queue s) \<and>
    fst (handler w env (popTask s i) (queue s ! i)) = Inr ()"
  then have "queue s ! i \<in> set (queue s)" by simp
  with a obtain r0 where "jobRow (database s) (id_job (queue s ! i)) = Some r0"
    unfolding consistent_iff by blast
  then have r0: "jobRow (database (popTask s i)) (id_job (queue s ! i)) = Some r0"
    by (simp add: popTask_def)
  obtain s1 where h: "handler w env (popTask s i) (queue s ! i) = (Inr (), s1)"
    using a by (cases "handler w env (popTask s i) (queue s ! i)") simp
  from runTask_row_success [OF r0 h] a
  show "\<exists>r. jobRow (database (step w s (Task i env))) (id_job (queue s ! i)) = Some r \<and>
           status r = Completed" by simp
next
  assume a: "consistent s \<and> i < length (queue s) \<and> \<not> maxUrlsReached w (popTask s i) \<and>
    fst (crawlUrl w env (popTask s i) (url_job (queue s ! i)) (depth_job (queue s ! i))) = Inr None"
  obtain s1 where c: "crawlUrl w env (popTask s i) (url_job (queue s ! i)) (depth_job (queue s ! i))
      = (Inr None, s1)"
    using a by (cases "crawlUrl w env (popTask s i) (url_job (queue s ! i)) (depth_job (queue s ! i))") simp
  from a have a1: "consistent s" and a2: "i < length (queue s)"
    and a3: "\<not> maxUrlsReached w (popTask s i)" by simp_all
  note t = task_blocked_step [OF a1 a2 a3 c]
  from t show "fst (handler w env (popTask s i) (queue s ! i)) = Inr ()" by simp
  from t show "urlsSkipped (stats (step w s (Task i env))) = urlsSkipped (stats s) + 1" by blast
  from t show "fst (snd (getJobStats (database (step w s (Task i env)))))
        = fst (snd (getJobStats (database s))) + 1" by blast
  from t show "\<exists>r now. jobRow (database s) (id_job (queue s ! i)) = Some r \<and> status r = Crawling \<and>
         retryCount r = retryCount (queue s ! i) \<and>
         (\<forall>events. jobRow (database (run w (step w s (Task i env)) events)) (id_job (queue s ! i))
            = Some (r\<lparr>status := Completed, errorMessage := None, updatedAt := now\<rparr>))" by blast
qed

lemma dispatched_facts:
  "consistent dispatched \<and> 0 < length (queue dispatched) \<and>
   \<not> maxUrlsReached strictWorld (popTask dispatched 0) \<and>
   fst (crawlUrl strictWorld robotsEnv (popTask dispatched 0) (url_job (queue dispatched ! 0))
          (depth_job (queue dispatched ! 0))) = Inr None"
  by code_simp

theorem skipped_job_completed_witness:
  "consistent dispatched \<and> 0 < length (queue dispatched) \<and>
   fst (handler strictWorld robotsEnv (popTask dispatched 0) (queue dispatched ! 0)) = Inr () \<and>
   urlsSkipped (stats (step strictWorld dispatched (Task 0 robotsEnv)))
     = urlsSkipped (stats dispatched) + 1"
  using skipped_job_completed [where s = dispatched and i = 0 and w = strictWorld and env = robotsEnv]
    dispatched_facts by blast

text \<open>
  C8.  For a capture at or beyond the maximum depth \<open>getLinksToFollow\<close> is empty; the
  handler of a job at or beyond the maximum depth leaves the job table and the number
  of discovered URLs as they are; and with maximum depth 0, one seed on an empty
  database gives one job and one discovered URL, whatever events follow.
\<close>

theorem depth_limit_no_children:
  "(depth_cap capture \<ge> md \<longrightarrow> getLinksToFollow cfg visited capture md = []) \<and>
   (depth_job job \<ge> maxDepth (config w) \<longrightarrow>
      jobs (database (snd (handler w env s job))) = jobs (database s) \<and>
      urlsDiscovered (stats (snd (handler w env s job))) = urlsDiscovered (stats s)) \<and>
   (maxDepth (config w) = 0 \<and> jobs (database s) = [] \<and> captures (database s) = [] \<longrightarrow>
      map url_job (jobs (database (run w (addSeeds w s [url]) events))) = [url] \<and>
      urlsDiscovered (stats (run w (addSeeds w s [url]) events)) = urlsDiscovered (stats s) + 1)"
proof (intro conjI impI)
  assume "depth_cap capture \<ge> md"
  then show "getLinksToFollow cfg visited capture md = []" by (rule getLinksToFollow_deep)
next
  assume d: "depth_job job \<ge> maxDepth (config w)"
  from handler_deep [OF d]
  show "jobs (database (snd (handler w env s job))) = jobs (database s)"
    and "urlsDiscovered (stats (snd (handler w env s job))) = urlsDiscovered (stats s)" by simp_all
next
  assume a: "maxDepth (config w) = 0 \<and> jobs (database s) = [] \<and> captures (database s) = []"
  then have z: "maxDepth (config w) = 0" and e: "jobs (database s) = []" "captures (database s) = []"
    by simp_all
  from run_depth0 [OF z, of "addSeeds w s [url]" events] seed_one [OF e, of w url]
  show "map url_job (jobs (database (run w (addSeeds w s [url]) events))) = [url]"
    and "urlsDiscovered (stats (run w (addSeeds w s [url]) events)) = urlsDiscovered (stats s) + 1"
    by simp_all
qed

lemma flat_facts:
  "depth_cap seedCapture \<ge> 0 \<and> maxDepth (config flatWorld) = 0 \<and>
   jobs (database emptySystem) = [] \<and> captures (database emptySystem) = [] \<and>
   list_all (\<lambda>l. isInternal l \<and> shouldCrawl (config flatWorld) {} (href l)) (links seedCapture)"
  by code_simp

theorem depth_limit_no_children_witness:
  "list_all (\<lambda>l. isInternal l \<and> shouldCrawl (config flatWorld) {} (href l)) (links seedCapture) \<and>
   getLinksToFollow (config flatWorld) {} seedCapture 0 = [] \<and>
   map url_job (jobs (database (run flatWorld (addSeeds flatWorld emptySystem [''https://a.com/''])
      [Poll, Task 0 (loadedEnv [''https://a.com/1''])]))) = [''https://a.com/''] \<and>
   urlsDiscovered (stats (run flatWorld (addSeeds flatWorld emptySystem [''https://a.com/''])
      [Poll, Task 0 (loadedEnv [''https://a.com/1''])])) = urlsDiscovered (stats emptySystem) + 1"
  using depth_limit_no_children [where capture = seedCapture and md = 0 and cfg = "config flatWorld"
      and visited = "{}" and w = flatWorld and s = emptySystem and url = "''https://a.com/''"
      and events = "[Poll, Task 0 (loadedEnv [''https://a.com/1''])]"]
    flat_facts by blast

lemma step_distinct_urls:
  assumes "distinct (map url_job (jobs (database s)))"
  shows "distinct (map url_job (jobs (database (step w s e))))"
proof (cases e)
  case Poll
  then show ?thesis
    using assms dispatch_frame [of w s "getPendingJobs (database s) 10"] by (simp add: poll_def)
next
  case (Task i env)
  show ?thesis
  proof (cases "i < length (queue s)")
    case False
    with Task assms show ?thesis by simp
  next
    case True
    have "distinct (map url_job (jobs (database (popTask s i))))" using assms by (simp add: popTask_def)
    from runTask_urls [OF this] Task True show ?thesis by simp
  qed
qed

lemma run_distinct_urls:
  "distinct (map url_job (jobs (database s))) \<Longrightarrow>
   distinct (map url_job (jobs (database (run w s events))))"
  unfolding run_def
  by (induction events arbitrary: s) (simp_all add: step_distinct_urls del: step.simps)

text \<open>
  C1, as amended.  The frontier deduplicates by the URL string as given: when a job with
  exactly this URL exists, in whatever status, \<open>addUrl\<close> returns \<open>None\<close> and changes
  nothing; and if no two jobs have the same URL string, this stays so after \<open>addUrl\<close>,
  after \<open>addSeeds\<close> and after every sequence of events of a crawl.
\<close>

theorem frontier_dedup_by_url:
  "(list_ex (\<lambda>j. url_job j = url) (jobs (database s)) \<longrightarrow>
      addUrl w s url depth parent prio = (None, s)) \<and>
   (distinct (map url_job (jobs (database s))) \<longrightarrow>
      distinct (map url_job (jobs (database (snd (addUrl w s url depth parent prio))))) \<and>
      distinct (map url_job (jobs (database (addSeeds w s urls)))) \<and>
      distinct (map url_job (jobs (database (run w s events)))))"
proof (intro conjI impI)
  assume "list_ex (\<lambda>j. url_job j = url) (jobs (database s))"
  then show "addUrl w s url depth parent prio = (None, s)" by (rule addUrl_existing)
next
  assume d: "distinct (map url_job (jobs (database s)))"
  show "distinct (map url_job (jobs (database (snd (addUrl w s url depth parent prio)))))"
    using d by (rule addUrl_distinct_urls)
  show "distinct (map url_job (jobs (database (addSeeds w s urls))))"
    using addSeeds_grows [of s w urls] d by (simp add: grows_def)
  show "distinct (map url_job (jobs (database (run w s events))))"
    using d by (rule run_distinct_urls)
qed

lemma crawledOnce_facts:
  "list_ex (\<lambda>j. url_job j = ''https://a.com/x'') (jobs (database crawledOnce)) \<and>
   distinct (map url_job (jobs (database crawledOnce))) \<and>
   map status (jobs (database crawledOnce)) = [Completed]"
  by code_simp

theorem frontier_dedup_by_url_witness:
  "map status (jobs (database crawledOnce)) = [Completed] \<and>
   addUrl exampleWorld crawledOnce ''https://a.com/x'' 1 None Normal = (None, crawledOnce) \<and>
   distinct (map url_job (jobs (database (addSeeds exampleWorld crawledOnce
      [''https://a.com/x'', ''https://a.com/y'', ''https://a.com/y'']))))"
  using frontier_dedup_by_url [where s = crawledOnce and url = "''https://a.com/x''" and w = exampleWorld
      and depth = 1 and parent = None and prio = Normal
      and urls = "[''https://a.com/x'', ''https://a.com/y'', ''https://a.com/y'']"]
    crawledOnce_facts by blast

text \<open>
  C1 as stated fails: \<^verbatim>\<open>https://a.com/x\<close> and \<^verbatim>\<open>https://a.com/x#top\<close> have the same
  normalized form, and both become jobs of an empty frontier; the second also becomes
  a job after the first was crawled to completion and its capture saved.
\<close>

theorem frontier_dedup_counterexample:
  "normalizeUrl ''https://a.com/x#top'' = normalizeUrl ''https://a.com/x'' \<and>
   fst (addUrl exampleWorld
          (snd (addUrl exampleWorld emptySystem ''https://a.com/x'' 0 None Normal))
          ''https://a.com/x#top'' 0 None Normal) \<noteq> None \<and>
   map url_job (jobs (database twoAdds)) = [''https://a.com/x'', ''https://a.com/x#top''] \<and>
   map status (jobs (database crawledOnce)) = [Completed] \<and>
   map normalizedUrl (captures (database crawledOnce)) = [''https://a.com/x''] \<and>
   fst (addUrl exampleWorld crawledOnce ''https://a.com/x#top'' 0 None High) \<noteq> None"
  by code_simp

text \<open>
  C9.  The code at a crawl with \<^verbatim>\<open>maxUrlsPerDomain = 1\<close>: the seed \<^verbatim>\<open>https://a.com/\<close> links
  to two pages of its domain, of which one is enqueued; that page links to a third, which
  is enqueued as well.  Three jobs of the domain \<^verbatim>\<open>a.com\<close> exist, against a cap of one.
\<close>

theorem per_domain_budget_exceeded:
  "maxUrlsPerDomain (config exampleWorld) = 1 \<and>
   map url_job (jobs (database budgetRun))
     = [''https://a.com/'', ''https://a.com/1'', ''https://a.com/3''] \<and>
   map (\<lambda>j. getDomain (url_job j)) (jobs (database budgetRun)) = [''a.com'', ''a.com'', ''a.com'']"
  by code_simp

end
